theory Spec2Isabelle
  imports Main "HOL-Library.Word"
begin

unbundle bit_operations_syntax

section \<open>Bytes, errors and the container\<close>

text \<open>
  A Python \<open>bytes\<close> object is a list of 8-bit words. Every exception the modelled code can
  raise is a value of \<open>error\<close>; a function that can raise returns \<open>error + 'a\<close>, and a
  method that mutates the BSP object also returns the object as it is at that moment.
\<close>

type_synonym byte = "8 word"
type_synonym bytes = "byte list"

datatype error =
    ValueError | TypeError | KeyError | IndexError | OverflowError
  | StructError | UnicodeError | AttributeError | NotImplementedError | AssertionError

text \<open>
  \<open>BSP_LUMPS\<close>: the members the modelled methods name, and \<open>OTHER_LUMP n\<close> for
  the member of value \<open>n\<close> among the remaining ones of the 64-slot enumeration.
\<close>

datatype BSP_LUMPS =
    ENTITIES | PLANES | TEXDATA | NODES | TEXINFO | LEAFS | GAME_LUMP | PAKFILE
  | CUBEMAPS | TEXDATA_STRING_DATA | TEXDATA_STRING_TABLE | OVERLAYS
  | OTHER_LUMP nat

record Lump =
  lump_type :: BSP_LUMPS
  lump_version :: int
  ident :: bytes
  data :: bytes

record GameLump =
  gl_id :: bytes
  gl_flags :: int
  gl_version :: int
  gl_data :: bytes

text \<open>
  \<open>BSP.version\<close> is a member of the enumeration \<open>VERSIONS\<close> (here with its value) when
  the file's version number is one of its values, and the plain integer otherwise.
\<close>

datatype bsp_version = VERSIONS int | RawVersion int

text \<open>
  The fields of \<open>BSP\<close> the modelled methods touch. \<open>'v\<close> is the type of the decoded
  objects held by \<open>_parsed_lumps\<close> (Python's \<open>Any\<close>).
\<close>

record 'v BSP =
  lumps :: "BSP_LUMPS \<Rightarrow> Lump"
  parsed_lumps :: "BSP_LUMPS \<rightharpoonup> 'v"
  game_lumps :: "bytes \<rightharpoonup> GameLump"
  version :: bsp_version
  out_comma_sep :: "bool option"

section \<open>ParsedLump: the lazy typed view\<close>

text \<open>
  \<open>_read\<close> and \<open>_check\<close> are \<open>None\<close> until \<open>__set_name__\<close> has run; \<open>_check\<close> stays
  \<open>None\<close> when the owner has no \<open>_lmp_check_\<close> method. A reader may itself change the
  BSP object (it may read other views), so it returns the object too.
\<close>

record 'v ParsedLump =
  lump :: BSP_LUMPS
  to_clear :: "BSP_LUMPS list"
  read_fn :: "('v BSP \<Rightarrow> bytes \<Rightarrow> (error + 'v) \<times> 'v BSP) option"
  check_fn :: "('v BSP \<Rightarrow> 'v \<Rightarrow> error option) option"

text \<open>
  \<open>LUMP_REBUILD_ORDER\<close>, and \<open>ParsedLump.__init__\<close> with its
  \<open>assert self.lump in LUMP_REBUILD_ORDER\<close>.
\<close>

definition LUMP_REBUILD_ORDER :: "BSP_LUMPS list" where
  "LUMP_REBUILD_ORDER = [PAKFILE, ENTITIES, CUBEMAPS, OVERLAYS, TEXINFO, TEXDATA_STRING_DATA]"

definition ParsedLump_init :: "BSP_LUMPS \<Rightarrow> BSP_LUMPS list \<Rightarrow> error + 'v ParsedLump" where
  "ParsedLump_init l extra =
     (if l \<in> set LUMP_REBUILD_ORDER
      then Inr \<lparr>lump = l, to_clear = l # extra, read_fn = None, check_fn = None\<rparr>
      else Inl AssertionError)"

definition ParsedLump_set_name ::
  "'v ParsedLump \<Rightarrow> ('v BSP \<Rightarrow> bytes \<Rightarrow> (error + 'v) \<times> 'v BSP)
     \<Rightarrow> ('v BSP \<Rightarrow> 'v \<Rightarrow> error option) option \<Rightarrow> 'v ParsedLump" where
  "ParsedLump_set_name self rd chk = self\<lparr>read_fn := Some rd, check_fn := chk\<rparr>"

text \<open>\<open>instance.lumps[lump].data = b''\<close>\<close>

definition clear_data :: "BSP_LUMPS \<Rightarrow> 'v BSP \<Rightarrow> 'v BSP" where
  "clear_data l instance =
     instance\<lparr>lumps := (lumps instance)(l := (lumps instance l)\<lparr>data := []\<rparr>)\<rparr>"

text \<open>\<open>for lump in self.to_clear: instance.lumps[lump].data = b''\<close>\<close>

fun clear_all :: "BSP_LUMPS list \<Rightarrow> 'v BSP \<Rightarrow> 'v BSP" where
  "clear_all [] instance = instance"
| "clear_all (l # ls) instance = clear_all ls (clear_data l instance)"

text \<open>
  \<open>ParsedLump.__get__\<close> on an instance (access on the class, \<open>instance is None\<close>, returns the
  descriptor and is not part of the model).
\<close>

definition ParsedLump_get :: "'v ParsedLump \<Rightarrow> 'v BSP \<Rightarrow> (error + 'v) \<times> 'v BSP" where
  "ParsedLump_get self instance =
     (case parsed_lumps instance (lump self) of
        Some v \<Rightarrow> (Inr v, instance)
      | None \<Rightarrow>
          (case read_fn self of
             None \<Rightarrow> (Inl TypeError, instance)
           | Some rd \<Rightarrow>
               (case rd instance (data (lumps instance (lump self))) of
                  (Inl e, inst1) \<Rightarrow> (Inl e, inst1)
                | (Inr result, inst1) \<Rightarrow>
                    (Inr result,
                     clear_all (to_clear self)
                       (inst1\<lparr>parsed_lumps := (parsed_lumps inst1)(lump self \<mapsto> result)\<rparr>)))))"

text \<open>\<open>ParsedLump.__set__\<close> on an instance.\<close>

definition ParsedLump_set :: "'v ParsedLump \<Rightarrow> 'v BSP \<Rightarrow> 'v \<Rightarrow> (error + unit) \<times> 'v BSP" where
  "ParsedLump_set self instance val =
     (case (case check_fn self of None \<Rightarrow> None | Some chk \<Rightarrow> chk instance val) of
        Some e \<Rightarrow> (Inl e, instance)
      | None \<Rightarrow>
          (Inr (),
           (clear_all (to_clear self) instance)
             \<lparr>parsed_lumps := (parsed_lumps (clear_all (to_clear self) instance))(lump self \<mapsto> val)\<rparr>))"

text \<open>
  The slots a view has touched hold a decoded object or raw bytes, never both: wherever
  \<open>_parsed_lumps\<close> has an entry among the given slots, the slot's raw data is empty.
\<close>

definition raw_or_decoded :: "BSP_LUMPS list \<Rightarrow> 'v BSP \<Rightarrow> bool" where
  "raw_or_decoded ls instance =
     list_all (\<lambda>l. parsed_lumps instance l = None \<or> data (lumps instance l) = []) ls"

section \<open>The pakfile view\<close>

text \<open>
  A \<open>ZipFile\<close> as far as the view looks at it: the file object \<open>fp\<close> it writes to, which is
  an in-memory \<open>BytesIO\<close>, a file on disk, or \<open>None\<close> once the archive is closed.
\<close>

datatype file_obj = BytesIO bytes | DiskFile string | NoFile

record ZipFile =
  fp :: file_obj
  filename :: string

text \<open>The decoded objects of the views modelled here.\<close>

datatype parsed =
    P_pakfile ZipFile
  | P_textures "string list"

fun isinstance_BytesIO :: "file_obj \<Rightarrow> bool" where
  "isinstance_BytesIO (BytesIO _) = True"
| "isinstance_BytesIO _ = False"

text \<open>\<open>BSP._lmp_check_pakfile\<close>; a value that is no \<open>ZipFile\<close> has no \<open>fp\<close> attribute.\<close>

fun lmp_check_pakfile :: "parsed BSP \<Rightarrow> parsed \<Rightarrow> error option" where
  "lmp_check_pakfile self (P_pakfile file) =
     (if \<not> isinstance_BytesIO (fp file) then Some ValueError else None)"
| "lmp_check_pakfile self _ = Some AttributeError"

text \<open>
  \<open>BSP._lmp_read_pakfile\<close>: \<open>ZipFile(BytesIO(data), mode='a')\<close>, then the file name of the
  BSP as its \<open>filename\<close>. The constructor is the standard library's: \<open>ZipFile_raises\<close>, a
  parameter, is the exception it raises on the bytes, if it raises one; the file name of the
  BSP is a parameter too.
\<close>

definition lmp_read_pakfile ::
  "(bytes \<Rightarrow> error option) \<Rightarrow> string \<Rightarrow> parsed BSP \<Rightarrow> bytes \<Rightarrow> (error + parsed) \<times> parsed BSP" where
  "lmp_read_pakfile ZipFile_raises fname self dat =
     (case ZipFile_raises dat of
        Some e \<Rightarrow> (Inl e, self)
      | None \<Rightarrow> (Inr (P_pakfile \<lparr>fp = BytesIO dat, filename = fname\<rparr>), self))"

text \<open>
  A view declared in the class body, \<open>name: ParsedLump[T] = ParsedLump(lump, *extra)\<close>:
  the descriptor as \<open>__init__\<close>, its assertion passed, and then \<open>__set_name__\<close> with the
  owner's \<open>_lmp_read_name\<close> and, if it has one, \<open>_lmp_check_name\<close> leave it.
\<close>

definition declare_view ::
  "BSP_LUMPS \<Rightarrow> BSP_LUMPS list \<Rightarrow> ('v BSP \<Rightarrow> bytes \<Rightarrow> (error + 'v) \<times> 'v BSP)
     \<Rightarrow> ('v BSP \<Rightarrow> 'v \<Rightarrow> error option) option \<Rightarrow> 'v ParsedLump" where
  "declare_view l extra rd chk =
     \<lparr>lump = l, to_clear = l # extra, read_fn = Some rd, check_fn = chk\<rparr>"

definition pakfile :: "(bytes \<Rightarrow> error option) \<Rightarrow> string \<Rightarrow> parsed ParsedLump" where
  "pakfile ZipFile_raises fname =
     declare_view PAKFILE [] (lmp_read_pakfile ZipFile_raises fname) (Some lmp_check_pakfile)"

text \<open>
  A BSP object as \<open>read\<close> leaves it, as far as the views look at it: every slot is present,
  nothing is decoded yet. \<open>with_data\<close> is \<open>bsp.lumps[l].data = d\<close>.
\<close>

definition fresh_bsp :: "'v BSP" where
  "fresh_bsp =
     \<lparr>lumps = (\<lambda>l. \<lparr>lump_type = l, lump_version = 0, ident = [0, 0, 0, 0], data = []\<rparr>),
      parsed_lumps = Map.empty, game_lumps = Map.empty, version = VERSIONS 21,
      out_comma_sep = None\<rparr>"

definition with_data :: "BSP_LUMPS \<Rightarrow> bytes \<Rightarrow> 'v BSP \<Rightarrow> 'v BSP" where
  "with_data l d instance =
     instance\<lparr>lumps := (lumps instance)(l := (lumps instance l)\<lparr>data := d\<rparr>)\<rparr>"

section \<open>Python sequences and the struct module\<close>

text \<open>
  \<open>xs[i]\<close>: a negative index counts from the end, an index outside the sequence raises
  \<open>IndexError\<close>. \<open>xs[a:b]\<close>: both bounds are clamped, nothing is raised.
\<close>

definition py_index :: "'a list \<Rightarrow> int \<Rightarrow> error + 'a" where
  "py_index xs i =
     (if 0 \<le> i \<and> i < int (length xs) then Inr (xs ! nat i)
      else if i < 0 \<and> - int (length xs) \<le> i then Inr (xs ! nat (int (length xs) + i))
      else Inl IndexError)"

definition slice_bound :: "nat \<Rightarrow> int \<Rightarrow> nat" where
  "slice_bound n i = (if i < 0 then nat (max (int n + i) 0) else min (nat i) n)"

definition py_slice :: "'a list \<Rightarrow> int \<Rightarrow> int \<Rightarrow> 'a list" where
  "py_slice xs a b =
     (let lo = slice_bound (length xs) a; hi = slice_bound (length xs) b
      in take (hi - lo) (drop lo xs))"

text \<open>
  Little-endian fields of \<open>struct\<close>: \<open>le_bytes n v\<close> are the \<open>n\<close> low bytes of \<open>v\<close>, and
  \<open>le_val\<close> reads them back. \<open>struct.pack\<close> raises \<open>struct.error\<close> for a value outside the
  range of the field.
\<close>

fun le_bytes :: "nat \<Rightarrow> nat \<Rightarrow> bytes" where
  "le_bytes 0 v = []"
| "le_bytes (Suc n) v = of_nat (v mod 256) # le_bytes n (v div 256)"

fun le_val :: "bytes \<Rightarrow> nat" where
  "le_val [] = 0"
| "le_val (b # bs) = unat b + 256 * le_val bs"

text \<open>An unsigned field of \<open>n\<close> bytes (\<open>B\<close>, \<open>H\<close>, \<open>I\<close>) and a signed one (\<open>h\<close>, \<open>i\<close>).\<close>

definition pack_unsigned :: "nat \<Rightarrow> int \<Rightarrow> error + bytes" where
  "pack_unsigned n v =
     (if 0 \<le> v \<and> v < 2 ^ (8 * n) then Inr (le_bytes n (nat v)) else Inl StructError)"

definition pack_signed :: "nat \<Rightarrow> int \<Rightarrow> error + bytes" where
  "pack_signed n v =
     (if - (2 ^ (8 * n - 1)) \<le> v \<and> v < 2 ^ (8 * n - 1)
      then Inr (le_bytes n (nat (v mod 2 ^ (8 * n)))) else Inl StructError)"

definition unpack_unsigned :: "bytes \<Rightarrow> int" where
  "unpack_unsigned bs = int (le_val bs)"

definition unpack_signed :: "bytes \<Rightarrow> int" where
  "unpack_signed bs =
     (let u = int (le_val bs)
      in if u \<ge> 2 ^ (8 * length bs - 1) then u - 2 ^ (8 * length bs) else u)"

text \<open>
  The records of \<open>n\<close> bytes a buffer is cut into. \<open>struct.unpack\<close> with a repeat count and
  \<open>struct.iter_unpack\<close> raise \<open>struct.error\<close> unless the buffer is a whole number of records.
\<close>

definition records_of :: "nat \<Rightarrow> bytes \<Rightarrow> bytes list" where
  "records_of n buf = map (\<lambda>k. take n (drop (k * n) buf)) [0..<length buf div n]"

definition unpack_ints :: "bytes \<Rightarrow> error + int list" where
  "unpack_ints buf =
     (if length buf mod 4 = 0 then Inr (map unpack_signed (records_of 4 buf))
      else Inl StructError)"

text \<open>
  \<open>str.encode('ascii')\<close> and \<open>bytes.decode('ascii')\<close>: both raise a \<open>UnicodeError\<close> on a
  character or byte above 127.
\<close>

definition encode_ascii :: "string \<Rightarrow> error + bytes" where
  "encode_ascii s =
     (if list_all (\<lambda>c. (of_char c :: nat) < 128) s then Inr (map (\<lambda>c. of_nat (of_char c)) s)
      else Inl UnicodeError)"

definition decode_ascii :: "bytes \<Rightarrow> error + string" where
  "decode_ascii bs =
     (if list_all (\<lambda>b. unat b < 128) bs then Inr (map (\<lambda>b. char_of (unat b)) bs)
      else Inl UnicodeError)"

text \<open>\<open>bytes.find(sub)\<close>: the lowest index where \<open>sub\<close> occurs, or \<open>-1\<close>.\<close>

fun find_from :: "nat \<Rightarrow> 'a list \<Rightarrow> 'a list \<Rightarrow> int" where
  "find_from i sub [] = (if sub = [] then int i else - 1)"
| "find_from i sub (x # xs) =
     (if take (length sub) (x # xs) = sub then int i else find_from (Suc i) sub xs)"

definition bytes_find :: "'a list \<Rightarrow> 'a list \<Rightarrow> int" where
  "bytes_find buf sub = find_from 0 sub buf"

section \<open>The texture name table\<close>

text \<open>
  The inner loop of \<open>BSP._lmp_read_textures\<close>:
  \<open>for str_off in range(off, off + 128): if tex_data[str_off] == 0: ... break\<close>, with
  \<open>else: raise ValueError\<close>. \<open>find_nul tex_data str_off k\<close> has \<open>k\<close> positions left to
  look at and returns the position of the NUL.
\<close>

fun find_nul :: "bytes \<Rightarrow> int \<Rightarrow> nat \<Rightarrow> error + int" where
  "find_nul tex_data str_off 0 = Inl ValueError"
| "find_nul tex_data str_off (Suc k) =
     (case py_index tex_data str_off of
        Inl e \<Rightarrow> Inl e
      | Inr b \<Rightarrow> if b = 0 then Inr str_off else find_nul tex_data (str_off + 1) k)"

definition read_name :: "bytes \<Rightarrow> int \<Rightarrow> error + string" where
  "read_name tex_data off =
     (case find_nul tex_data off 128 of
        Inl e \<Rightarrow> Inl e
      | Inr str_off \<Rightarrow> decode_ascii (py_slice tex_data off str_off))"

text \<open>\<open>for off in table_offsets\<close>: the first error ends the loop.\<close>

fun read_names :: "bytes \<Rightarrow> int list \<Rightarrow> error + string list" where
  "read_names tex_data [] = Inr []"
| "read_names tex_data (off # offs) =
     (case read_name tex_data off of
        Inl e \<Rightarrow> Inl e
      | Inr name \<Rightarrow>
          (case read_names tex_data offs of
             Inl e \<Rightarrow> Inl e
           | Inr mat_list \<Rightarrow> Inr (name # mat_list)))"

definition read_textures :: "bytes \<Rightarrow> bytes \<Rightarrow> error + string list" where
  "read_textures tex_table tex_data =
     (case unpack_ints tex_table of
        Inl e \<Rightarrow> Inl e
      | Inr table_offsets \<Rightarrow> read_names tex_data table_offsets)"

text \<open>\<open>BSP._lmp_read_textures\<close>: the offset table is the raw data of a second slot.\<close>

definition lmp_read_textures :: "parsed BSP \<Rightarrow> bytes \<Rightarrow> (error + parsed) \<times> parsed BSP" where
  "lmp_read_textures self tex_data =
     (case read_textures (data (lumps self TEXDATA_STRING_TABLE)) tex_data of
        Inl e \<Rightarrow> (Inl e, self)
      | Inr mat_list \<Rightarrow> (Inr (P_textures mat_list), self))"

text \<open>
  The loop of \<open>BSP._lmp_write_textures\<close>, with \<open>table\<close> and \<open>data\<close> as they are before the
  texture at the head of the list is written.
\<close>

fun write_names :: "string list \<Rightarrow> bytes \<Rightarrow> bytes \<Rightarrow> error + bytes \<times> bytes" where
  "write_names [] table dat = Inr (table, dat)"
| "write_names (tex # textures) table dat =
     (if length tex \<ge> 128 then Inl OverflowError
      else case encode_ascii tex of
        Inl e \<Rightarrow> Inl e
      | Inr enc \<Rightarrow>
          (let string = enc @ [0];
               found = bytes_find dat string;
               ind = (if found = - 1 then int (length dat) else found);
               dat' = (if found = - 1 then dat @ string else dat)
           in case pack_signed 4 ind of
                Inl e \<Rightarrow> Inl e
              | Inr packed \<Rightarrow> write_names textures (table @ packed) dat'))"

definition write_textures :: "string list \<Rightarrow> error + bytes \<times> bytes" where
  "write_textures textures = write_names textures [] []"

text \<open>
  \<open>BSP._lmp_write_textures\<close>: returns the string blob and stores the offset table in its
  slot; a value that is no list of strings has no \<open>len\<close> of its members.
\<close>

fun lmp_write_textures :: "parsed BSP \<Rightarrow> parsed \<Rightarrow> (error + bytes) \<times> parsed BSP" where
  "lmp_write_textures self (P_textures textures) =
     (case write_textures textures of
        Inl e \<Rightarrow> (Inl e, self)
      | Inr (table, dat) \<Rightarrow> (Inr dat, with_data TEXDATA_STRING_TABLE table self))"
| "lmp_write_textures self _ = (Inl TypeError, self)"

definition textures :: "parsed ParsedLump" where
  "textures = declare_view TEXDATA_STRING_DATA [TEXDATA_STRING_TABLE] lmp_read_textures None"

text \<open>
  For the proofs: the name \<open>tex\<close> is stored at offset \<open>off\<close> of the blob \<open>d\<close>, NUL-terminated.
\<close>

definition stored_at :: "bytes \<Rightarrow> string \<Rightarrow> int \<Rightarrow> bool" where
  "stored_at d tex off \<longleftrightarrow>
     0 \<le> off \<and> (\<exists>enc. encode_ascii tex = Inr enc
        \<and> nat off + length enc + 1 \<le> length d
        \<and> take (length enc + 1) (drop (nat off) d) = enc @ [0])"

section \<open>Fixed-layout records of the struct module\<close>

text \<open>
  The field codes of a little-endian format string: \<open>x\<close> is a pad byte, \<open>B\<close> and \<open>?\<close> one
  byte, \<open>h\<close> and \<open>H\<close> two, \<open>i\<close>, \<open>I\<close> and \<open>f\<close> four. A format is the list of its codes,
  a repeat count written out with \<open>replicate\<close>. Unpacking gives one integer per field that is
  no pad: a float is the integer of its binary32 bit pattern (its arithmetic is no part of
  the model), a bool is 0 or 1.
\<close>

datatype fmt = Fx | FB | Fbool | Fh | FH | Fi | FI | Ff

fun fmt_size :: "fmt \<Rightarrow> nat" where
  "fmt_size Fx = 1"
| "fmt_size FB = 1"
| "fmt_size Fbool = 1"
| "fmt_size Fh = 2"
| "fmt_size FH = 2"
| "fmt_size Fi = 4"
| "fmt_size FI = 4"
| "fmt_size Ff = 4"

definition calcsize :: "fmt list \<Rightarrow> nat" where
  "calcsize fs = sum_list (map fmt_size fs)"

fun field_value :: "fmt \<Rightarrow> bytes \<Rightarrow> int" where
  "field_value Fh bs = unpack_signed bs"
| "field_value Fi bs = unpack_signed bs"
| "field_value Fbool bs = (if unpack_unsigned bs = 0 then 0 else 1)"
| "field_value f bs = unpack_unsigned bs"

fun unpack_items :: "fmt list \<Rightarrow> bytes \<Rightarrow> int list" where
  "unpack_items [] buf = []"
| "unpack_items (Fx # fs) buf = unpack_items fs (drop 1 buf)"
| "unpack_items (f # fs) buf =
     field_value f (take (fmt_size f) buf) # unpack_items fs (drop (fmt_size f) buf)"

text \<open>\<open>struct.iter_unpack(format, buffer)\<close>, all records at once.\<close>

definition iter_unpack :: "fmt list \<Rightarrow> bytes \<Rightarrow> error + int list list" where
  "iter_unpack fs buf =
     (if calcsize fs \<noteq> 0 \<and> length buf mod calcsize fs = 0
      then Inr (map (unpack_items fs) (records_of (calcsize fs) buf))
      else Inl StructError)"

section \<open>The visibility tree\<close>

text \<open>
  A \<open>Vec\<close> is its three components. The leafs are never changed once made, so a child slot
  that holds a leaf holds the leaf itself; a node gets its children after it has been made,
  so a child slot that holds a node holds the index of that node object in the list of all
  node objects. \<open>None\<close> is the initial value of a child slot.
\<close>

type_synonym Vec = "int \<times> int \<times> int"

record VisLeaf =
  leaf_id :: int
  area :: int
  leaf_flags :: int
  leaf_mins :: Vec
  leaf_maxes :: Vec
  first_face :: int
  face_count :: int
  first_brush :: int
  brush_count :: int
  water_id :: int

datatype child = ChildLeaf VisLeaf | ChildNode nat

record VisTree =
  plane_norm :: Vec
  plane_dist :: int
  mins :: Vec
  maxes :: Vec
  child_neg :: "child option"
  child_pos :: "child option"

text \<open>The three loops that make the objects; a record of the wrong shape cannot come out of
  \<open>iter_unpack\<close>, and is a \<open>TypeError\<close> here.\<close>

fun make_plane :: "int list \<Rightarrow> error + Vec \<times> int" where
  "make_plane [x, y, z, dist, flags] = Inr ((x, y, z), dist)"
| "make_plane _ = Inl TypeError"

fun make_node :: "(Vec \<times> int) list \<Rightarrow> int list \<Rightarrow> error + VisTree \<times> int \<times> int" where
  "make_node planes [plane_ind, neg_ind, pos_ind, min_x, min_y, min_z, max_x, max_y, max_z,
                     first_face_ind, num_faces, area_ind] =
     (case py_index planes plane_ind of
        Inl e \<Rightarrow> Inl e
      | Inr (norm, dist) \<Rightarrow>
          Inr (\<lparr>plane_norm = norm, plane_dist = dist,
                mins = (min_x, min_y, min_z), maxes = (max_x, max_y, max_z),
                child_neg = None, child_pos = None\<rparr>, neg_ind, pos_ind))"
| "make_node planes _ = Inl TypeError"

text \<open>\<open>area_and_flags >> 7\<close> and \<open>area_and_flags & 0b1111111\<close> on a Python integer.\<close>

fun make_leaf :: "int \<Rightarrow> int list \<Rightarrow> error + VisLeaf" where
  "make_leaf i [contents, cluster_ind, area_and_flags, min_x, min_y, min_z, max_x, max_y, max_z,
                first_face_ind, num_faces, first_brush_ind, num_brushes, water_ind] =
     Inr \<lparr>leaf_id = i, area = area_and_flags div 128, leaf_flags = area_and_flags mod 128,
          leaf_mins = (min_x, min_y, min_z), leaf_maxes = (max_x, max_y, max_z),
          first_face = first_face_ind, face_count = num_faces,
          first_brush = first_brush_ind, brush_count = num_brushes, water_id = water_ind\<rparr>"
| "make_leaf i _ = Inl TypeError"

text \<open>A loop body that may raise, run over a list: the first error ends it.\<close>

fun map_err :: "('a \<Rightarrow> error + 'b) \<Rightarrow> 'a list \<Rightarrow> error + 'b list" where
  "map_err f [] = Inr []"
| "map_err f (x # xs) =
     (case f x of
        Inl e \<Rightarrow> Inl e
      | Inr y \<Rightarrow> (case map_err f xs of Inl e \<Rightarrow> Inl e | Inr ys \<Rightarrow> Inr (y # ys)))"

text \<open>
  What a child slot gets for the integer \<open>ind\<close>: \<open>leafs[-1 - ind]\<close> when it is negative,
  \<open>nodes[ind][0]\<close> otherwise.
\<close>

definition child_of :: "VisLeaf list \<Rightarrow> VisTree list \<Rightarrow> int \<Rightarrow> error + child" where
  "child_of leafs nodes ind =
     (if ind < 0
      then (case py_index leafs (- 1 - ind) of Inl e \<Rightarrow> Inl e | Inr lf \<Rightarrow> Inr (ChildLeaf lf))
      else (case py_index nodes ind of Inl e \<Rightarrow> Inl e | Inr n \<Rightarrow> Inr (ChildNode (nat ind))))"

text \<open>
  The linking loop \<open>for node, neg_ind, pos_ind in nodes\<close>: \<open>i\<close> is the index of the node
  object at the head of the list, \<open>nodes\<close> are all node objects as they are by now.
\<close>

fun link_nodes ::
  "(int \<times> int) list \<Rightarrow> nat \<Rightarrow> VisLeaf list \<Rightarrow> VisTree list \<Rightarrow> error + VisTree list" where
  "link_nodes [] i leafs nodes = Inr nodes"
| "link_nodes ((neg_ind, pos_ind) # rest) i leafs nodes =
     (case child_of leafs nodes neg_ind of
        Inl e \<Rightarrow> Inl e
      | Inr cn \<Rightarrow>
          (let nodes1 = nodes[i := (nodes ! i)\<lparr>child_neg := Some cn\<rparr>]
           in case child_of leafs nodes1 pos_ind of
                Inl e \<Rightarrow> Inl e
              | Inr cp \<Rightarrow>
                  link_nodes rest (Suc i) leafs
                    (nodes1[i := (nodes1 ! i)\<lparr>child_pos := Some cp\<rparr>])))"

definition plane_fmt :: "fmt list" where
  "plane_fmt = [Ff, Ff, Ff, Ff, Fi]"

definition node_fmt :: "fmt list" where
  "node_fmt = [Fi, Fi, Fi] @ replicate 6 Fh @ [FH, FH, Fh, Fx, Fx]"

text \<open>\<open>self.version.value <= 19\<close>: a plain integer has no \<open>value\<close>.\<close>

fun leaf_fmt :: "bsp_version \<Rightarrow> error + fmt list" where
  "leaf_fmt (VERSIONS v) =
     Inr ([Fi, Fh, Fh] @ replicate 6 Fh @ replicate 4 FH @ [Fh, Fx, Fx]
          @ (if v \<le> 19 then replicate 26 Fx else []))"
| "leaf_fmt (RawVersion v) = Inl AttributeError"

text \<open>
  \<open>BSP.vis_tree\<close>. The result is the node object \<open>nodes[0][0]\<close>: its index, 0, in the list of
  all node objects, and that list, through which its children are reached.
\<close>

definition vis_tree :: "'v BSP \<Rightarrow> error + nat \<times> VisTree list" where
  "vis_tree self =
     (case iter_unpack plane_fmt (data (lumps self PLANES)) of Inl e \<Rightarrow> Inl e | Inr plane_recs \<Rightarrow>
      case map_err make_plane plane_recs of Inl e \<Rightarrow> Inl e | Inr planes \<Rightarrow>
      case iter_unpack node_fmt (data (lumps self NODES)) of Inl e \<Rightarrow> Inl e | Inr node_recs \<Rightarrow>
      case map_err (make_node planes) node_recs of Inl e \<Rightarrow> Inl e | Inr nodes \<Rightarrow>
      case leaf_fmt (version self) of Inl e \<Rightarrow> Inl e | Inr lfmt \<Rightarrow>
      case iter_unpack lfmt (data (lumps self LEAFS)) of Inl e \<Rightarrow> Inl e | Inr leaf_recs \<Rightarrow>
      case map_err (\<lambda>(i, r). make_leaf (int i) r) (enumerate 0 leaf_recs) of
        Inl e \<Rightarrow> Inl e | Inr leafs \<Rightarrow>
      case link_nodes (map snd nodes) 0 leafs (map fst nodes) of Inl e \<Rightarrow> Inl e | Inr linked \<Rightarrow>
      case py_index linked 0 of Inl e \<Rightarrow> Inl e | Inr root \<Rightarrow> Inr (0, linked))"

text \<open>
  The specification's reading of a child slot that was given the integer \<open>c\<close>, among \<open>n\<close>
  node objects: the leaf at index \<open>-1 - c\<close> when \<open>c\<close> is negative, the node at index \<open>c\<close>
  otherwise.
\<close>

definition links_to :: "VisLeaf list \<Rightarrow> nat \<Rightarrow> int \<Rightarrow> child option \<Rightarrow> bool" where
  "links_to leafs n c slot \<longleftrightarrow>
     (if c < 0 then nat (- 1 - c) < length leafs \<and> slot = Some (ChildLeaf (leafs ! nat (- 1 - c)))
      else nat c < n \<and> slot = Some (ChildNode (nat c)))"

text \<open>
  The flat input of one node and two leafs: a plane, a node on plane 0 with the children
  \<open>-1\<close> and \<open>-2\<close>, and two leaf records of 32 bytes.
\<close>

definition one_node_two_leafs :: "'v BSP" where
  "one_node_two_leafs =
     with_data PLANES (replicate 20 0)
       (with_data NODES ([0, 0, 0, 0] @ [255, 255, 255, 255] @ [254, 255, 255, 255] @ replicate 20 0)
         (with_data LEAFS (replicate 64 0) fresh_bsp))"

text \<open>The leaf object made from a record of zeros at index \<open>i\<close>.\<close>

definition zero_leaf :: "int \<Rightarrow> VisLeaf" where
  "zero_leaf i = \<lparr>leaf_id = i, area = 0, leaf_flags = 0, leaf_mins = (0, 0, 0), leaf_maxes = (0, 0, 0),
     first_face = 0, face_count = 0, first_brush = 0, brush_count = 0, water_id = 0\<rparr>"

section \<open>The overlays\<close>

text \<open>
  The class \<open>Overlay\<close> (its fields with the prefix \<open>overlay_\<close>), over the type \<open>'ti\<close> of the \<open>TexInfo\<close> objects it refers to; the
  floats are the integers of their bit patterns. The validator of \<open>render_order\<close>,
  \<open>in_(range(3))\<close>, runs when the object is made and raises \<open>ValueError\<close>; the validator
  of \<open>faces\<close> accepts every list of integers.
\<close>

record 'ti Overlay =
  overlay_id :: int
  overlay_origin :: Vec
  overlay_normal :: Vec
  overlay_texture :: 'ti
  overlay_face_count :: int
  overlay_faces :: "int list"
  overlay_render_order :: int
  overlay_u_min :: int
  overlay_u_max :: int
  overlay_v_min :: int
  overlay_v_max :: int
  overlay_uv1 :: Vec
  overlay_uv2 :: Vec
  overlay_uv3 :: Vec
  overlay_uv4 :: Vec

definition Overlay_init ::
  "int \<Rightarrow> Vec \<Rightarrow> Vec \<Rightarrow> 'ti \<Rightarrow> int \<Rightarrow> int list \<Rightarrow> int \<Rightarrow> int \<Rightarrow> int \<Rightarrow> int \<Rightarrow> int
     \<Rightarrow> Vec \<Rightarrow> Vec \<Rightarrow> Vec \<Rightarrow> Vec \<Rightarrow> error + 'ti Overlay" where
  "Overlay_init over_id origin normal texture num_faces faces render_order
       u_min u_max v_min v_max uv1 uv2 uv3 uv4 =
     (if 0 \<le> render_order \<and> render_order < 3
      then Inr \<lparr>overlay_id = over_id, overlay_origin = origin, overlay_normal = normal,
                overlay_texture = texture, overlay_face_count = num_faces,
                overlay_faces = faces, overlay_render_order = render_order,
                overlay_u_min = u_min, overlay_u_max = u_max,
                overlay_v_min = v_min, overlay_v_max = v_max,
                overlay_uv1 = uv1, overlay_uv2 = uv2, overlay_uv3 = uv3, overlay_uv4 = uv4\<rparr>
      else Inl ValueError)"

text \<open>\<open>Vec(block[a:a + 3])\<close>\<close>

definition vec_at :: "int list \<Rightarrow> int \<Rightarrow> error + Vec" where
  "vec_at block a =
     (case py_slice block a (a + 3) of [x, y, z] \<Rightarrow> Inr (x, y, z) | _ \<Rightarrow> Inl TypeError)"

definition overlay_fmt :: "fmt list" where
  "overlay_fmt = [Fi, Fh, FH] @ replicate 64 Fi @ replicate 4 Ff @ replicate 18 Ff"

text \<open>
  The body of the loop of \<open>BSP._lmp_read_overlays\<close> for one record. \<open>self.texinfo\<close>, the
  read of another view, is the parameter \<open>get_texinfo\<close>: it may raise, and it may change the
  BSP object. It is evaluated when the arguments of \<open>Overlay(...)\<close> are, after everything
  else has been taken from the record.
\<close>

definition read_overlay ::
  "('s \<Rightarrow> (error + 'ti list) \<times> 's) \<Rightarrow> 's \<Rightarrow> int list \<Rightarrow> (error + 'ti Overlay) \<times> 's" where
  "read_overlay get_texinfo self block =
     (case py_slice block 0 3 of
        [over_id, texinfo, face_ro] \<Rightarrow>
          (let num_faces = face_ro AND (push_bit 14 1 - 1);
               render_order = drop_bit 14 face_ro
           in if num_faces > 64 then (Inl ValueError, self)
              else
                (let faces = py_slice block 3 (3 + num_faces)
                 in case py_slice block 67 71 of
                      [u_min, u_max, v_min, v_max] \<Rightarrow>
                        (case vec_at block 71 of Inl e \<Rightarrow> (Inl e, self) | Inr uv1 \<Rightarrow>
                         case vec_at block 74 of Inl e \<Rightarrow> (Inl e, self) | Inr uv2 \<Rightarrow>
                         case vec_at block 77 of Inl e \<Rightarrow> (Inl e, self) | Inr uv3 \<Rightarrow>
                         case vec_at block 80 of Inl e \<Rightarrow> (Inl e, self) | Inr uv4 \<Rightarrow>
                         case vec_at block 83 of Inl e \<Rightarrow> (Inl e, self) | Inr origin \<Rightarrow>
                         case vec_at block 86 of Inl e \<Rightarrow> (Inl e, self) | Inr normal \<Rightarrow>
                         if length block \<noteq> 89 then (Inl AssertionError, self)
                         else
                           (case get_texinfo self of
                              (Inl e, self1) \<Rightarrow> (Inl e, self1)
                            | (Inr infos, self1) \<Rightarrow>
                                (case py_index infos texinfo of
                                   Inl e \<Rightarrow> (Inl e, self1)
                                 | Inr tex \<Rightarrow>
                                     (Overlay_init over_id origin normal tex num_faces faces
                                        render_order u_min u_max v_min v_max uv1 uv2 uv3 uv4,
                                      self1))))
                    | _ \<Rightarrow> (Inl ValueError, self)))
      | _ \<Rightarrow> (Inl ValueError, self))"

text \<open>The loop over the records: the first error ends it.\<close>

fun read_overlays ::
  "('s \<Rightarrow> (error + 'ti list) \<times> 's) \<Rightarrow> 's \<Rightarrow> int list list \<Rightarrow> (error + 'ti Overlay list) \<times> 's" where
  "read_overlays get_texinfo self [] = (Inr [], self)"
| "read_overlays get_texinfo self (block # blocks) =
     (case read_overlay get_texinfo self block of
        (Inl e, self1) \<Rightarrow> (Inl e, self1)
      | (Inr over, self1) \<Rightarrow>
          (case read_overlays get_texinfo self1 blocks of
             (Inl e, self2) \<Rightarrow> (Inl e, self2)
           | (Inr overlays, self2) \<Rightarrow> (Inr (over # overlays), self2)))"

text \<open>\<open>BSP._lmp_read_overlays\<close>\<close>

definition lmp_read_overlays ::
  "('s \<Rightarrow> (error + 'ti list) \<times> 's) \<Rightarrow> 's \<Rightarrow> bytes \<Rightarrow> (error + 'ti Overlay list) \<times> 's" where
  "lmp_read_overlays get_texinfo self dat =
     (case iter_unpack overlay_fmt dat of
        Inl e \<Rightarrow> (Inl e, self)
      | Inr blocks \<Rightarrow> read_overlays get_texinfo self blocks)"

text \<open>The face array of a record: the 64 fields after the first three.\<close>

definition face_array :: "int list \<Rightarrow> int list" where
  "face_array block = take 64 (drop 3 block)"

text \<open>
  One record of 352 bytes: id 1, texinfo 0, two faces with render order 1 (the packed field
  is \<open>0x4002\<close>), the first slots of the face array 7 and 9; and the same record with the
  packed field \<open>0x0041\<close>, 65 faces.
\<close>

definition overlay_record :: "byte \<Rightarrow> byte \<Rightarrow> bytes" where
  "overlay_record lo hi =
     [1, 0, 0, 0] @ [0, 0] @ [lo, hi] @ [7, 0, 0, 0] @ [9, 0, 0, 0] @ replicate 248 0
       @ replicate 88 0"

section \<open>The static props\<close>

text \<open>
  Modelled from the spec: \<open>srctools.binformat.struct_read\<close> is not among the sources. It is
  taken to read from the stream the bytes of the format's fixed-size little-endian fields
  and to unpack them, and to raise \<open>struct.error\<close> when the stream holds fewer. A stream
  that is only read from front to back is the list of the bytes still to come. The formats
  without \<open><\<close> of \<open>static_props\<close> hold fields of one size only, so they have the size of the
  standard ones; their byte order is that of a little-endian machine.
\<close>

definition struct_read :: "fmt list \<Rightarrow> bytes \<Rightarrow> error + int list \<times> bytes" where
  "struct_read fs buf =
     (if length buf < calcsize fs then Inl StructError
      else Inr (unpack_items fs (take (calcsize fs) buf), drop (calcsize fs) buf))"


text \<open>One read after another: the first error ends the sequence.\<close>

definition then_read ::
  "(bytes \<Rightarrow> error + 'a \<times> bytes) \<Rightarrow> ('a \<Rightarrow> bytes \<Rightarrow> error + 'b \<times> bytes)
     \<Rightarrow> bytes \<Rightarrow> error + 'b \<times> bytes" where
  "then_read r f buf = (case r buf of Inl e \<Rightarrow> Inl e | Inr (x, rest) \<Rightarrow> f x rest)"

definition no_read :: "'a \<Rightarrow> bytes \<Rightarrow> error + 'a \<times> bytes" where
  "no_read x buf = Inr (x, buf)"
















text \<open>
  What a reader does when it returns: \<open>reads n P r\<close> says that \<open>r\<close>, whenever it returns,
  has taken exactly the first \<open>n\<close> bytes of the stream, of which there were that many, and
  returns a value for which \<open>P\<close> holds.
\<close>

definition reads :: "nat \<Rightarrow> ('a \<Rightarrow> bool) \<Rightarrow> (bytes \<Rightarrow> error + 'a \<times> bytes) \<Rightarrow> bool" where
  "reads n P r \<longleftrightarrow>
     (\<forall>buf x rest. r buf = Inr (x, rest) \<longrightarrow> n \<le> length buf \<and> rest = drop n buf \<and> P x)"









section \<open>Facts about the view\<close>

lemma lumps_clear_all:
  "lumps (clear_all ls s) l = (if l \<in> set ls then (lumps s l)\<lparr>data := []\<rparr> else lumps s l)"
  by (induction ls arbitrary: s) (auto simp: clear_data_def)

lemma parsed_lumps_clear_all: "parsed_lumps (clear_all ls s) = parsed_lumps s"
  by (induction ls arbitrary: s) (auto simp: clear_data_def)

lemma data_clear_all:
  "data (lumps (clear_all ls s) l) = (if l \<in> set ls then [] else data (lumps s l))"
  by (simp add: lumps_clear_all)

lemma raw_or_decoded_store:
  assumes "raw_or_decoded ls s" and "l \<in> set cs"
  shows "raw_or_decoded ls (clear_all cs (s\<lparr>parsed_lumps := (parsed_lumps s)(l \<mapsto> v)\<rparr>))"
  using assms
  by (auto simp: raw_or_decoded_def list_all_iff data_clear_all parsed_lumps_clear_all)

lemma raw_or_decoded_store':
  assumes "raw_or_decoded ls s" and "l \<in> set cs"
  shows "raw_or_decoded ls
           ((clear_all cs s)\<lparr>parsed_lumps := (parsed_lumps (clear_all cs s))(l \<mapsto> v)\<rparr>)"
  using assms
  by (auto simp: raw_or_decoded_def list_all_iff data_clear_all parsed_lumps_clear_all)

lemma view_fields:
  "lump (declare_view l extra rd chk) = l"
  "to_clear (declare_view l extra rd chk) = l # extra"
  "read_fn (declare_view l extra rd chk) = Some rd"
  "check_fn (declare_view l extra rd chk) = chk"
  by (simp_all add: declare_view_def)

lemma declare_view_init:
  "ParsedLump_init l extra = Inr v \<Longrightarrow> ParsedLump_set_name v rd chk = declare_view l extra rd chk"
  by (auto simp: ParsedLump_init_def ParsedLump_set_name_def declare_view_def split: if_splits)

lemma ParsedLump_init_assert:
  "ParsedLump_init l extra = Inl AssertionError \<longleftrightarrow> l \<notin> set LUMP_REBUILD_ORDER"
  by (simp add: ParsedLump_init_def)

lemma views_declared:
  "\<exists>v. ParsedLump_init PAKFILE [] = Inr v
      \<and> ParsedLump_set_name v (lmp_read_pakfile ZipFile_raises fname) (Some lmp_check_pakfile)
          = pakfile ZipFile_raises fname"
  "\<exists>v. ParsedLump_init TEXDATA_STRING_DATA [TEXDATA_STRING_TABLE] = Inr v
      \<and> ParsedLump_set_name v lmp_read_textures None = textures"
  by (simp_all add: ParsedLump_init_def LUMP_REBUILD_ORDER_def ParsedLump_set_name_def
        declare_view_def pakfile_def textures_def)

lemma get_first:
  assumes "parsed_lumps s l = None" and "rd s (data (lumps s l)) = (Inr r, s1)"
  shows "ParsedLump_get (declare_view l extra rd chk) s =
           (Inr r, clear_all (l # extra) (s1\<lparr>parsed_lumps := (parsed_lumps s1)(l \<mapsto> r)\<rparr>))"
  using assms by (simp add: ParsedLump_get_def view_fields del: clear_all.simps)

lemma get_cached:
  assumes "parsed_lumps s l = Some r"
  shows "ParsedLump_get (declare_view l extra rd chk) s = (Inr r, s)"
  using assms by (simp add: ParsedLump_get_def view_fields)

lemma set_accepted:
  assumes "(case chk of None \<Rightarrow> None | Some c \<Rightarrow> c s v) = None"
  shows "ParsedLump_set (declare_view l extra rd chk) s v =
           (Inr (), (clear_all (l # extra) s)
                      \<lparr>parsed_lumps := (parsed_lumps (clear_all (l # extra) s))(l \<mapsto> v)\<rparr>)"
  using assms by (simp add: ParsedLump_set_def view_fields del: clear_all.simps)

lemma set_rejected:
  assumes "check_fn self = Some c" and "c s v = Some e"
  shows "ParsedLump_set self s v = (Inl e, s)"
  using assms by (simp add: ParsedLump_set_def)

text \<open>
  C4. For a view declared as \<open>ParsedLump(lump, *extra)\<close>: a first get (no cached object,
  the reader succeeds on the slot's raw bytes) returns the decoded object, caches it and
  empties the raw data of the primary and of every dependent slot; a get after it returns
  the same object and leaves the BSP object as it is; an accepted assignment empties the
  same slots and stores the value, which the next get returns; and both operations keep,
  on any list of slots, that a slot holding a decoded object holds no raw bytes (the reader
  being assumed to keep it too).
\<close>

theorem parsed_lump_cache_then_clear:
  "(parsed_lumps s l = None \<and> rd s (data (lumps s l)) = (Inr r, s1) \<longrightarrow>
      (\<exists>s2. ParsedLump_get (declare_view l extra rd chk) s = (Inr r, s2)
         \<and> parsed_lumps s2 l = Some r
         \<and> (\<forall>c \<in> set (l # extra). data (lumps s2 c) = [])
         \<and> ParsedLump_get (declare_view l extra rd chk) s2 = (Inr r, s2)
         \<and> (raw_or_decoded ls s1 \<longrightarrow> raw_or_decoded ls s2)))
   \<and> ((case chk of None \<Rightarrow> None | Some c \<Rightarrow> c s v) = None \<longrightarrow>
      (\<exists>s3. ParsedLump_set (declare_view l extra rd chk) s v = (Inr (), s3)
         \<and> parsed_lumps s3 l = Some v
         \<and> (\<forall>c \<in> set (l # extra). data (lumps s3 c) = [])
         \<and> ParsedLump_get (declare_view l extra rd chk) s3 = (Inr v, s3)
         \<and> (raw_or_decoded ls s \<longrightarrow> raw_or_decoded ls s3)))"
proof (intro conjI impI)
  assume a: "parsed_lumps s l = None \<and> rd s (data (lumps s l)) = (Inr r, s1)"
  let ?s2 = "clear_all (l # extra) (s1\<lparr>parsed_lumps := (parsed_lumps s1)(l \<mapsto> r)\<rparr>)"
  have g: "ParsedLump_get (declare_view l extra rd chk) s = (Inr r, ?s2)"
    using a by (intro get_first) simp_all
  have p: "parsed_lumps ?s2 l = Some r"
    by (simp only: parsed_lumps_clear_all) simp
  have d: "\<forall>c \<in> set (l # extra). data (lumps ?s2 c) = []"
    by (simp only: data_clear_all) simp
  have g2: "ParsedLump_get (declare_view l extra rd chk) ?s2 = (Inr r, ?s2)"
    using p by (rule get_cached)
  have i: "raw_or_decoded ls s1 \<longrightarrow> raw_or_decoded ls ?s2"
  proof
    assume "raw_or_decoded ls s1"
    then show "raw_or_decoded ls ?s2" by (rule raw_or_decoded_store) simp
  qed
  from g p d g2 i
  show "\<exists>s2. ParsedLump_get (declare_view l extra rd chk) s = (Inr r, s2)
          \<and> parsed_lumps s2 l = Some r
          \<and> (\<forall>c \<in> set (l # extra). data (lumps s2 c) = [])
          \<and> ParsedLump_get (declare_view l extra rd chk) s2 = (Inr r, s2)
          \<and> (raw_or_decoded ls s1 \<longrightarrow> raw_or_decoded ls s2)"
    by blast
next
  assume a: "(case chk of None \<Rightarrow> None | Some c \<Rightarrow> c s v) = None"
  let ?c = "clear_all (l # extra) s"
  let ?s3 = "?c\<lparr>parsed_lumps := (parsed_lumps ?c)(l \<mapsto> v)\<rparr>"
  have g: "ParsedLump_set (declare_view l extra rd chk) s v = (Inr (), ?s3)"
    using a by (rule set_accepted)
  have p: "parsed_lumps ?s3 l = Some v" by simp
  have d: "\<forall>c \<in> set (l # extra). data (lumps ?s3 c) = []"
    by (simp add: data_clear_all del: clear_all.simps)
  have g2: "ParsedLump_get (declare_view l extra rd chk) ?s3 = (Inr v, ?s3)"
    using p by (rule get_cached)
  have i: "raw_or_decoded ls s \<longrightarrow> raw_or_decoded ls ?s3"
  proof
    assume "raw_or_decoded ls s"
    then show "raw_or_decoded ls ?s3" by (rule raw_or_decoded_store') simp
  qed
  from g p d g2 i
  show "\<exists>s3. ParsedLump_set (declare_view l extra rd chk) s v = (Inr (), s3)
          \<and> parsed_lumps s3 l = Some v
          \<and> (\<forall>c \<in> set (l # extra). data (lumps s3 c) = [])
          \<and> ParsedLump_get (declare_view l extra rd chk) s3 = (Inr v, s3)
          \<and> (raw_or_decoded ls s \<longrightarrow> raw_or_decoded ls s3)"
    by blast
qed

theorem parsed_lump_cache_then_clear_witness:
  "parsed_lumps (with_data PAKFILE [80, 75] (fresh_bsp :: parsed BSP)) PAKFILE = None
   \<and> raw_or_decoded [PAKFILE, ENTITIES] (with_data PAKFILE [80, 75] (fresh_bsp :: parsed BSP))
   \<and> (\<exists>s2. ParsedLump_get (pakfile (\<lambda>d. None) ''map.bsp'') (with_data PAKFILE [80, 75] fresh_bsp)
               = (Inr (P_pakfile \<lparr>fp = BytesIO [80, 75], filename = ''map.bsp''\<rparr>), s2)
         \<and> parsed_lumps s2 PAKFILE = Some (P_pakfile \<lparr>fp = BytesIO [80, 75], filename = ''map.bsp''\<rparr>)
         \<and> data (lumps s2 PAKFILE) = []
         \<and> ParsedLump_get (pakfile (\<lambda>d. None) ''map.bsp'') s2
               = (Inr (P_pakfile \<lparr>fp = BytesIO [80, 75], filename = ''map.bsp''\<rparr>), s2)
         \<and> raw_or_decoded [PAKFILE, ENTITIES] s2)
   \<and> (\<exists>s3. ParsedLump_set (pakfile (\<lambda>d. None) ''map.bsp'') (with_data PAKFILE [80, 75] fresh_bsp)
               (P_pakfile \<lparr>fp = BytesIO [], filename = ''new.zip''\<rparr>) = (Inr (), s3)
         \<and> parsed_lumps s3 PAKFILE = Some (P_pakfile \<lparr>fp = BytesIO [], filename = ''new.zip''\<rparr>)
         \<and> data (lumps s3 PAKFILE) = []
         \<and> ParsedLump_get (pakfile (\<lambda>d. None) ''map.bsp'') s3
               = (Inr (P_pakfile \<lparr>fp = BytesIO [], filename = ''new.zip''\<rparr>), s3)
         \<and> raw_or_decoded [PAKFILE, ENTITIES] s3)"
proof -
  let ?s = "with_data PAKFILE [80, 75] (fresh_bsp :: parsed BSP)"
  let ?z = "P_pakfile \<lparr>fp = BytesIO [80, 75], filename = ''map.bsp''\<rparr>"
  let ?v = "P_pakfile \<lparr>fp = BytesIO [], filename = ''new.zip''\<rparr>"
  have h1: "parsed_lumps ?s PAKFILE = None"
    by (simp add: with_data_def fresh_bsp_def)
  have h2: "lmp_read_pakfile (\<lambda>d. None) ''map.bsp'' ?s (data (lumps ?s PAKFILE)) = (Inr ?z, ?s)"
    by (simp add: lmp_read_pakfile_def with_data_def)
  have h3: "raw_or_decoded [PAKFILE, ENTITIES] ?s"
    by (simp add: raw_or_decoded_def with_data_def fresh_bsp_def)
  have h4: "(case Some lmp_check_pakfile of None \<Rightarrow> None | Some c \<Rightarrow> c ?s ?v) = None"
    by simp
  from parsed_lump_cache_then_clear
         [of ?s PAKFILE "lmp_read_pakfile (\<lambda>d. None) ''map.bsp''" ?z ?s "[]" "Some lmp_check_pakfile"
             "[PAKFILE, ENTITIES]" ?v]
       h1 h2 h3 h4
  show ?thesis
    unfolding pakfile_def by simp
qed

text \<open>
  C9. Assigning to the pakfile view a \<open>ZipFile\<close> whose \<open>fp\<close> is no \<open>BytesIO\<close> raises
  \<open>ValueError\<close> and leaves the whole BSP object, so the cached pakfile and the raw bytes of
  the lump, as it was: the check runs before anything is written.
\<close>

theorem pakfile_set_rejects_non_bytesio:
  "\<not> isinstance_BytesIO (fp file) \<Longrightarrow>
     ParsedLump_set (pakfile ZipFile_raises fname) instance (P_pakfile file)
       = (Inl ValueError, instance)"
  by (rule set_rejected [where c = lmp_check_pakfile])
     (simp_all add: pakfile_def view_fields)

theorem pakfile_set_rejects_non_bytesio_witness:
  "\<not> isinstance_BytesIO (fp \<lparr>fp = DiskFile ''pak.zip'', filename = ''pak.zip''\<rparr>)
   \<and> ParsedLump_set (pakfile (\<lambda>d. None) ''map.bsp'') (with_data PAKFILE [80, 75] fresh_bsp)
        (P_pakfile \<lparr>fp = DiskFile ''pak.zip'', filename = ''pak.zip''\<rparr>)
      = (Inl ValueError, with_data PAKFILE [80, 75] fresh_bsp)
   \<and> data (lumps (with_data PAKFILE [80, 75] (fresh_bsp :: parsed BSP)) PAKFILE) = [80, 75]"
  using pakfile_set_rejects_non_bytesio
          [of "\<lparr>fp = DiskFile ''pak.zip'', filename = ''pak.zip''\<rparr>" "\<lambda>d. None" "''map.bsp''"
              "with_data PAKFILE [80, 75] fresh_bsp"]
  by (simp add: with_data_def)

section \<open>Facts about the struct fields and the texture name table\<close>

lemma length_le_bytes [simp]: "length (le_bytes n v) = n"
  by (induction n arbitrary: v) auto

lemma le_val_le_bytes: "le_val (le_bytes n v) = v mod 256 ^ n"
proof (induction n arbitrary: v)
  case 0
  then show ?case by simp
next
  case (Suc n)
  have "unat (of_nat (v mod 256) :: byte) = v mod 256"
    by (simp add: unat_of_nat)
  then show ?case
    using Suc[of "v div 256"] by (simp add: mod_mult2_eq)
qed

lemma unpack_unsigned_pack:
  "pack_unsigned n v = Inr bs \<Longrightarrow> unpack_unsigned bs = v \<and> length bs = n"
  by (auto simp: pack_unsigned_def unpack_unsigned_def le_val_le_bytes power_mult
           split: if_splits)

lemma signed_wrap:
  fixes v M :: int
  assumes "- M \<le> v" and "v < M"
  shows "(if v mod (2 * M) \<ge> M then v mod (2 * M) - 2 * M else v mod (2 * M)) = v"
proof (cases "0 \<le> v")
  case True
  with assms have "v mod (2 * M) = v" by (intro mod_pos_pos_trivial) auto
  with assms show ?thesis by simp
next
  case False
  with assms have "(v + 2 * M) mod (2 * M) = v + 2 * M"
    by (intro mod_pos_pos_trivial) auto
  then have "v mod (2 * M) = v + 2 * M" by simp
  with False assms show ?thesis by simp
qed

lemma pow8: "n > 0 \<Longrightarrow> (2::int) ^ (8 * n) = 2 * 2 ^ (8 * n - 1)"
proof -
  assume "n > 0"
  then have "8 * n = Suc (8 * n - 1)" by simp
  then show ?thesis by (metis power_Suc)
qed

lemma unpack_signed_pack:
  assumes "pack_signed n v = Inr bs" and "n > 0"
  shows "unpack_signed bs = v \<and> length bs = n"
proof -
  define M :: int where "M = 2 ^ (8 * n - 1)"
  have M2: "(2::int) ^ (8 * n) = 2 * M"
    unfolding M_def by (rule pow8[OF assms(2)])
  have M1: "(2::int) ^ (8 * n - Suc 0) = M" by (simp add: M_def)
  from assms(1) have r: "- M \<le> v" "v < M" and bs: "bs = le_bytes n (nat (v mod (2 * M)))"
    by (auto simp: pack_signed_def M1 M2 split: if_splits)
  have l: "length bs = n" by (simp add: bs)
  have "256 ^ n = 2 * M"
    using M2 by (simp add: power_mult)
  moreover have "0 < M" by (simp add: M_def)
  then have "0 \<le> v mod (2 * M)" by simp
  ultimately have "int (le_val bs) = (v mod (2 * M)) mod (2 * M)"
    unfolding bs le_val_le_bytes by (simp add: zmod_int)
  then have u: "int (le_val bs) = v mod (2 * M)" by simp
  have "unpack_signed bs = (if v mod (2 * M) \<ge> M then v mod (2 * M) - 2 * M else v mod (2 * M))"
    unfolding unpack_signed_def Let_def u l M2 M_def[symmetric] ..
  with signed_wrap[OF r] l show ?thesis by simp
qed

lemma records_of_append:
  assumes "0 < n" and "length a = n"
  shows "records_of n (a @ rest) = a # records_of n rest"
proof -
  have d: "length (a @ rest) div n = Suc (length rest div n)"
    using assms by (simp add: div_add_self1)
  have "records_of n (a @ rest) =
          take n (a @ rest) # map (\<lambda>k. take n (drop (Suc k * n) (a @ rest))) [0..<length rest div n]"
    unfolding records_of_def d map_upt_Suc by simp
  also have "take n (a @ rest) = a" using assms by simp
  also have "map (\<lambda>k. take n (drop (Suc k * n) (a @ rest))) [0..<length rest div n]
               = records_of n rest"
    unfolding records_of_def using assms by (intro map_cong) auto
  finally show ?thesis .
qed

lemma records_of_Nil [simp]: "records_of n [] = []"
  by (simp add: records_of_def)

lemma unpack_ints_packed:
  assumes "list_all2 (\<lambda>v bs. pack_signed 4 v = Inr bs) vs bss"
  shows "unpack_ints (concat bss) = Inr vs"
proof -
  from assms have "length (concat bss) mod 4 = 0 \<and> map unpack_signed (records_of 4 (concat bss)) = vs"
  proof (induction rule: list_all2_induct)
    case Nil
    then show ?case by simp
  next
    case (Cons v vs bs bss)
    from unpack_signed_pack[OF Cons.hyps(1)] have u: "unpack_signed bs = v" "length bs = 4"
      by simp_all
    from Cons.IH u show ?case
      by (simp add: records_of_append)
  qed
  then show ?thesis by (simp add: unpack_ints_def)
qed

lemma find_from_spec:
  "find_from i sub xs = r \<Longrightarrow>
     r = - 1 \<or> (int i \<le> r \<and> nat (r - int i) + length sub \<le> length xs
                \<and> take (length sub) (drop (nat (r - int i)) xs) = sub)"
proof (induction xs arbitrary: i)
  case Nil
  then show ?case by (auto split: if_splits)
next
  case (Cons x xs)
  show ?case
  proof (cases "take (length sub) (x # xs) = sub")
    case True
    then have "length (take (length sub) (x # xs)) = length sub" by simp
    then have "length sub \<le> length (x # xs)"
      unfolding length_take by linarith
    with True Cons.prems show ?thesis by auto
  next
    case False
    with Cons.prems have "find_from (Suc i) sub xs = r" by simp
    from Cons.IH[OF this] show ?thesis
    proof
      assume "r = - 1" then show ?thesis by simp
    next
      assume a: "int (Suc i) \<le> r \<and> nat (r - int (Suc i)) + length sub \<le> length xs
                \<and> take (length sub) (drop (nat (r - int (Suc i))) xs) = sub"
      then have "nat (r - int i) = Suc (nat (r - int (Suc i)))" by auto
      with a show ?thesis by auto
    qed
  qed
qed

lemma bytes_find_spec:
  "bytes_find buf sub = r \<Longrightarrow>
     r = - 1 \<or> (0 \<le> r \<and> nat r + length sub \<le> length buf
                \<and> take (length sub) (drop (nat r) buf) = sub)"
  using find_from_spec[of 0 sub buf r] by (simp add: bytes_find_def)

lemma stored_at_append: "stored_at d tex off \<Longrightarrow> stored_at (d @ ext) tex off"
  by (auto simp: stored_at_def)

lemma write_names_spec:
  assumes "write_names texs table dat = Inr (table', dat')"
  shows "\<exists>offs packs ext. list_all2 (\<lambda>v bs. pack_signed 4 v = Inr bs) offs packs
           \<and> table' = table @ concat packs \<and> dat' = dat @ ext
           \<and> list_all2 (stored_at dat') texs offs"
  using assms
proof (induction texs arbitrary: table dat)
  case Nil
  then show ?case by auto
next
  case (Cons tex texs)
  from Cons.prems obtain enc where enc: "encode_ascii tex = Inr enc"
    by (auto split: if_splits sum.splits)
  define string where "string = enc @ [0::byte]"
  define found where "found = bytes_find dat string"
  define ind where "ind = (if found = - 1 then int (length dat) else found)"
  define dat1 where "dat1 = (if found = - 1 then dat @ string else dat)"
  from Cons.prems enc obtain packed where
    packed: "pack_signed 4 ind = Inr packed" and
    rest: "write_names texs (table @ packed) dat1 = Inr (table', dat')"
    by (auto simp: Let_def string_def found_def ind_def dat1_def split: if_splits sum.splits)
  from Cons.IH[OF rest] obtain offs packs ext where
    ih: "list_all2 (\<lambda>v bs. pack_signed 4 v = Inr bs) offs packs"
        "table' = (table @ packed) @ concat packs" "dat' = dat1 @ ext"
        "list_all2 (stored_at dat') texs offs"
    by blast
  have s1: "stored_at dat1 tex ind"
  proof (cases "found = - 1")
    case True
    then show ?thesis
      using enc by (simp add: stored_at_def ind_def dat1_def string_def)
  next
    case False
    with bytes_find_spec[OF found_def[symmetric]]
    have "0 \<le> found" "nat found + length string \<le> length dat"
         "take (length string) (drop (nat found) dat) = string"
      by auto
    with False show ?thesis
      using enc by (simp add: stored_at_def ind_def dat1_def string_def)
  qed
  have s: "stored_at dat' tex ind"
    unfolding ih(3) by (rule stored_at_append[OF s1])
  have e: "\<exists>ext'. dat' = dat @ ext'"
    unfolding ih(3) dat1_def by auto
  then obtain ext' where e': "dat' = dat @ ext'" ..
  have "list_all2 (\<lambda>v bs. pack_signed 4 v = Inr bs) (ind # offs) (packed # packs)"
    using packed ih(1) by simp
  moreover have "table' = table @ concat (packed # packs)"
    using ih(2) by simp
  moreover have "list_all2 (stored_at dat') (tex # texs) (ind # offs)"
    using s ih(4) by simp
  ultimately show ?case using e' by blast
qed

lemma take_Suc_drop_Cons:
  assumes "take (Suc L) (drop n d) = x # rest"
  shows "n < length d \<and> d ! n = x \<and> take L (drop (Suc n) d) = rest"
proof -
  from assms have "drop n d \<noteq> []" by auto
  then have n: "n < length d" by simp
  then have "drop n d = d ! n # drop (Suc n) d" by (simp add: Cons_nth_drop_Suc)
  with assms n show ?thesis by simp
qed

lemma py_index_nat: "n < length d \<Longrightarrow> py_index d (int n) = Inr (d ! n)"
  by (simp add: py_index_def Let_def)

lemma find_nul_stored:
  assumes "take (length nm + 1) (drop n d) = nm @ [0]" and "0 \<notin> set nm" and "length nm < k"
  shows "find_nul d (int n) k = Inr (int n + int (length nm))"
  using assms
proof (induction nm arbitrary: n k)
  case Nil
  then obtain k' where k: "k = Suc k'" by (cases k) auto
  from Nil.prems(1) have "take (Suc 0) (drop n d) = 0 # []" by simp
  from take_Suc_drop_Cons[OF this] have "n < length d" "d ! n = 0" by simp_all
  then show ?case by (simp add: k py_index_nat)
next
  case (Cons b nm)
  then obtain k' where k: "k = Suc k'" and k': "length nm < k'" by (cases k) auto
  from Cons.prems(1) have "take (Suc (length nm + 1)) (drop n d) = b # (nm @ [0])" by simp
  from take_Suc_drop_Cons[OF this]
  have n: "n < length d" "d ! n = b" and t: "take (length nm + 1) (drop (Suc n) d) = nm @ [0]"
    by simp_all
  from Cons.prems(2) have b: "b \<noteq> 0" and nm: "0 \<notin> set nm" by auto
  have "find_nul d (int (Suc n)) k' = Inr (int (Suc n) + int (length nm))"
    by (rule Cons.IH[OF t nm k'])
  then show ?case using n b by (simp add: k py_index_nat add.commute)
qed

lemma py_slice_nat:
  assumes "n + L \<le> length d"
  shows "py_slice d (int n) (int n + int L) = take L (drop n d)"
proof -
  have "slice_bound (length d) (int n) = n" using assms by (simp add: slice_bound_def)
  moreover have "slice_bound (length d) (int n + int L) = n + L"
    using assms by (simp add: slice_bound_def nat_add_distrib)
  ultimately show ?thesis by (simp add: py_slice_def Let_def)
qed

lemma byte_of_char [simp]: "unat (of_nat (of_char c) :: byte) = of_char c"
proof -
  have "(of_char c :: nat) < 256" by (rule nat_of_char_less_256)
  then show ?thesis by (simp add: unat_of_nat del: of_nat_of_char)
qed

lemma decode_encode_ascii:
  assumes "encode_ascii tex = Inr enc"
  shows "decode_ascii enc = Inr tex"
proof -
  from assms have a: "list_all (\<lambda>c. (of_char c :: nat) < 128) tex"
    and enc: "enc = map (\<lambda>c. of_nat (of_char c)) tex"
    by (auto simp: encode_ascii_def split: if_splits)
  have "list_all (\<lambda>b. unat b < 128) enc"
    using a by (simp add: enc list_all_iff)
  moreover have "map (\<lambda>b. char_of (unat b)) enc = tex"
    by (simp add: enc o_def map_idI)
  ultimately show ?thesis by (simp add: decode_ascii_def)
qed

lemma encode_no_nul:
  assumes "encode_ascii tex = Inr enc" and "CHR 0x00 \<notin> set tex"
  shows "0 \<notin> set enc"
proof
  assume "0 \<in> set enc"
  with assms(1) obtain c where c: "c \<in> set tex" and z: "(of_nat (of_char c) :: byte) = 0"
    by (auto simp: encode_ascii_def split: if_splits)
  from z have "unat (of_nat (of_char c) :: byte) = 0" by simp
  then have "(of_char c :: nat) = 0" by simp
  moreover have "(of_char (CHR 0x00) :: nat) = 0" by simp
  ultimately have "(of_char c :: nat) = of_char (CHR 0x00)" by simp
  then have "c = CHR 0x00" by (rule of_char_eqI)
  with c assms(2) show False by simp
qed

lemma encode_ascii_length: "encode_ascii tex = Inr enc \<Longrightarrow> length enc = length tex"
  by (auto simp: encode_ascii_def split: if_splits)

lemma read_name_stored:
  assumes "stored_at d tex off" and "CHR 0x00 \<notin> set tex" and "length tex < 128"
  shows "read_name d off = Inr tex"
proof -
  from assms(1) obtain enc where off: "0 \<le> off" and enc: "encode_ascii tex = Inr enc"
    and len: "nat off + length enc + 1 \<le> length d"
    and tk: "take (length enc + 1) (drop (nat off) d) = enc @ [0]"
    by (auto simp: stored_at_def)
  have l: "length enc < 128" using assms(3) encode_ascii_length[OF enc] by simp
  have "find_nul d (int (nat off)) 128 = Inr (int (nat off) + int (length enc))"
    by (rule find_nul_stored[OF tk encode_no_nul[OF enc assms(2)] l])
  then have f: "find_nul d off 128 = Inr (off + int (length enc))"
    using off by simp
  have "py_slice d (int (nat off)) (int (nat off) + int (length enc)) = take (length enc) (drop (nat off) d)"
    by (rule py_slice_nat) (use len in simp)
  also have "\<dots> = take (length enc) (take (length enc + 1) (drop (nat off) d))"
    by simp
  also have "\<dots> = enc" unfolding tk by simp
  finally have "py_slice d off (off + int (length enc)) = enc" using off by simp
  then show ?thesis
    by (simp add: read_name_def f decode_encode_ascii[OF enc])
qed

lemma read_names_stored:
  assumes "list_all2 (stored_at d) texs offs"
    and "\<forall>tex \<in> set texs. CHR 0x00 \<notin> set tex \<and> length tex < 128"
  shows "read_names d offs = Inr texs"
  using assms
proof (induction rule: list_all2_induct)
  case Nil
  then show ?case by simp
next
  case (Cons tex texs off offs)
  then have "read_name d off = Inr tex" by (intro read_name_stored) auto
  moreover have "read_names d offs = Inr texs" using Cons by auto
  ultimately show ?case by simp
qed

lemma write_names_ok:
  assumes "\<forall>tex \<in> set texs. length tex < 128 \<and> list_all (\<lambda>c. (of_char c :: nat) < 128) tex"
    and "length dat + (\<Sum>tex\<leftarrow>texs. length tex + 1) < 2 ^ 31"
  shows "\<exists>table' dat'. write_names texs table dat = Inr (table', dat')"
  using assms
proof (induction texs arbitrary: table dat)
  case Nil
  then show ?case by simp
next
  case (Cons tex texs)
  define enc :: bytes where "enc = map (\<lambda>c. of_nat (of_char c)) tex"
  have enc: "encode_ascii tex = Inr enc" and le: "length enc = length tex"
    using Cons.prems(1) by (simp_all add: encode_ascii_def enc_def)
  define string where "string = enc @ [0::byte]"
  define found where "found = bytes_find dat string"
  define ind where "ind = (if found = - 1 then int (length dat) else found)"
  define dat1 where "dat1 = (if found = - 1 then dat @ string else dat)"
  have ind: "0 \<le> ind \<and> ind \<le> int (length dat)"
    using bytes_find_spec[OF found_def[symmetric]] by (auto simp: ind_def)
  moreover have "length dat < 2 ^ 31"
    using Cons.prems(2) by simp
  then have "int (length dat) < 2 ^ 31"
    by (metis of_nat_less_iff of_nat_numeral of_nat_power)
  ultimately have "pack_signed 4 ind = Inr (le_bytes 4 (nat (ind mod 2 ^ 32)))"
    by (simp add: pack_signed_def)
  moreover have "length dat1 + (\<Sum>tex\<leftarrow>texs. length tex + 1) < 2 ^ 31"
    using Cons.prems(2) le by (simp add: dat1_def string_def)
  then have "\<exists>table' dat'. write_names texs (table @ le_bytes 4 (nat (ind mod 2 ^ 32))) dat1
                = Inr (table', dat')"
    using Cons.prems(1) by (intro Cons.IH) auto
  moreover have "write_names (tex # texs) table dat =
      (case pack_signed 4 ind of Inl e \<Rightarrow> Inl e
       | Inr packed \<Rightarrow> write_names texs (table @ packed) dat1)"
    unfolding dat1_def ind_def found_def string_def
    using Cons.prems(1) enc by (simp add: Let_def)
  ultimately show ?case by simp
qed

lemma find_nul_none:
  "(\<forall>j<k. py_index d (off + int j) \<noteq> Inr 0) \<Longrightarrow> \<exists>e. find_nul d off k = Inl e"
proof (induction k arbitrary: off)
  case 0
  then show ?case by simp
next
  case (Suc k)
  from Suc.prems[rule_format, of 0] have h0: "py_index d off \<noteq> Inr 0" by simp
  have "\<forall>j<k. py_index d (off + 1 + int j) \<noteq> Inr 0"
  proof (intro allI impI)
    fix j assume "j < k"
    then have "py_index d (off + int (Suc j)) \<noteq> Inr 0"
      using Suc.prems[rule_format, of "Suc j"] by simp
    then show "py_index d (off + 1 + int j) \<noteq> Inr 0" by (simp add: add.assoc)
  qed
  from Suc.IH[OF this] obtain e where "find_nul d (off + 1) k = Inl e" ..
  with h0 show ?case by (cases "py_index d off") auto
qed

lemma find_nul_value_error:
  "(\<forall>j<k. n + j < length d \<and> d ! (n + j) \<noteq> 0) \<Longrightarrow> find_nul d (int n) k = Inl ValueError"
proof (induction k arbitrary: n)
  case 0
  then show ?case by simp
next
  case (Suc k)
  from Suc.prems[rule_format, of 0] have h0: "n < length d" "d ! n \<noteq> 0"
    by simp_all
  have "\<forall>j<k. Suc n + j < length d \<and> d ! (Suc n + j) \<noteq> 0"
  proof (intro allI impI)
    fix j assume "j < k"
    then have "n + Suc j < length d \<and> d ! (n + Suc j) \<noteq> 0"
      using Suc.prems[rule_format, of "Suc j"] by simp
    then show "Suc n + j < length d \<and> d ! (Suc n + j) \<noteq> 0" by simp
  qed
  from Suc.IH[OF this] have "find_nul d (int (Suc n)) k = Inl ValueError" .
  with h0 show ?case by (simp add: py_index_nat add.commute)
qed

lemma read_names_error:
  "off \<in> set offs \<Longrightarrow> read_name d off = Inl e \<Longrightarrow> \<exists>e'. read_names d offs = Inl e'"
proof (induction offs)
  case Nil
  then show ?case by simp
next
  case (Cons o' offs)
  show ?case
  proof (cases "read_name d o'")
    case (Inl e1)
    then show ?thesis by simp
  next
    case (Inr name)
    with Cons.prems have "off \<in> set offs" by auto
    from Cons.IH[OF this Cons.prems(2)] obtain e' where "read_names d offs = Inl e'" ..
    with Inr show ?thesis by simp
  qed
qed

lemma write_names_too_long:
  "tex \<in> set texs \<Longrightarrow> length tex \<ge> 128 \<Longrightarrow> \<exists>e. write_names texs table dat = Inl e"
proof (induction texs arbitrary: table dat)
  case Nil
  then show ?case by simp
next
  case (Cons t texs)
  show ?case
  proof (cases "length t \<ge> 128")
    case True
    then show ?thesis by simp
  next
    case False
    with Cons.prems have "tex \<in> set texs" by auto
    from Cons.IH[OF this Cons.prems(2)]
    have ih: "\<And>table dat. \<exists>e. write_names texs table dat = Inl e" .
    show ?thesis
    proof (cases "encode_ascii t")
      case (Inl e)
      with False show ?thesis by simp
    next
      case (Inr enc)
      define found where "found = bytes_find dat (enc @ [0])"
      define ind where "ind = (if found = - 1 then int (length dat) else found)"
      define dat1 where "dat1 = (if found = - 1 then dat @ enc @ [0] else dat)"
      have step: "write_names (t # texs) table dat =
          (case pack_signed 4 ind of Inl e \<Rightarrow> Inl e
           | Inr packed \<Rightarrow> write_names texs (table @ packed) dat1)"
        unfolding dat1_def ind_def found_def using False Inr by (simp add: Let_def)
      show ?thesis
      proof (cases "pack_signed 4 ind")
        case (Inl e)
        then show ?thesis unfolding step by simp
      next
        case (Inr packed)
        from ih[of "table @ packed" dat1] show ?thesis unfolding step Inr by simp
      qed
    qed
  qed
qed

lemma textures_encode_decode:
  assumes ok: "\<forall>tex \<in> set texs. length tex < 128 \<and> CHR 0x00 \<notin> set tex
                  \<and> list_all (\<lambda>c. (of_char c :: nat) < 128) tex"
    and size: "(\<Sum>tex\<leftarrow>texs. length tex + 1) < 2 ^ 31"
  shows "\<exists>table dat. write_textures texs = Inr (table, dat)
           \<and> read_textures table dat = Inr texs"
proof -
  from write_names_ok[of texs "[]" "[]"] ok size
  obtain table dat where w: "write_names texs [] [] = Inr (table, dat)"
    by auto
  from write_names_spec[OF w] obtain offs packs where
    p: "list_all2 (\<lambda>v bs. pack_signed 4 v = Inr bs) offs packs"
    and t: "table = concat packs" and st: "list_all2 (stored_at dat) texs offs"
    by auto
  have "unpack_ints table = Inr offs"
    unfolding t by (rule unpack_ints_packed[OF p])
  moreover have "read_names dat offs = Inr texs"
    by (rule read_names_stored[OF st]) (use ok in auto)
  ultimately have "read_textures table dat = Inr texs"
    by (simp add: read_textures_def)
  with w show ?thesis by (auto simp: write_textures_def)
qed


lemma unpack_ints_zero: "unpack_ints [0, 0, 0, 0] = Inr [0]"
  by code_simp

lemma read_textures_no_room:
  assumes "length name = 128" and "0 \<notin> set name"
  shows "read_textures [0, 0, 0, 0] (name @ 0 # rest) = Inl ValueError"
proof -
  have "\<forall>j<128. 0 + j < length (name @ 0 # rest) \<and> (name @ 0 # rest) ! (0 + j) \<noteq> 0"
  proof (intro allI impI)
    fix j :: nat assume j: "j < 128"
    then have "(name @ 0 # rest) ! j = name ! j" using assms(1) by (simp add: nth_append)
    moreover have "name ! j \<in> set name" using j assms(1) by simp
    then have "name ! j \<noteq> 0" using assms(2) by metis
    ultimately show "0 + j < length (name @ 0 # rest) \<and> (name @ 0 # rest) ! (0 + j) \<noteq> 0"
      using assms(1) j by simp
  qed
  from find_nul_value_error[OF this]
  have "find_nul (name @ 0 # rest) 0 128 = Inl ValueError" by simp
  then show ?thesis
    by (simp add: read_textures_def unpack_ints_zero read_name_def)
qed

text \<open>
  C5. Decoding the texture names raises an error whenever some offset of the table has no NUL
  among the 128 bytes from it on, and leaves the BSP object as it is; encoding raises an
  error, and writes nothing, whenever some name has 128 characters or more; a name of exactly
  128 bytes followed by its NUL fails decoding with \<open>ValueError\<close>, and a name of exactly 128
  characters fails encoding with \<open>OverflowError\<close>.
\<close>

theorem texture_name_128_limit:
  "(unpack_ints (data (lumps self TEXDATA_STRING_TABLE)) = Inr offs \<and> off \<in> set offs
      \<and> (\<forall>k<128. py_index tex_data (off + int k) \<noteq> Inr 0)
      \<longrightarrow> (\<exists>e. lmp_read_textures self tex_data = (Inl e, self)))
   \<and> (tex \<in> set texs \<and> 128 \<le> length tex
      \<longrightarrow> (\<exists>e. lmp_write_textures self (P_textures texs) = (Inl e, self)))
   \<and> (length name = 128 \<and> 0 \<notin> set name
      \<longrightarrow> lmp_read_textures (with_data TEXDATA_STRING_TABLE [0, 0, 0, 0] self) (name @ 0 # rest)
            = (Inl ValueError, with_data TEXDATA_STRING_TABLE [0, 0, 0, 0] self))
   \<and> (length tex128 = 128
      \<longrightarrow> lmp_write_textures self (P_textures [tex128]) = (Inl OverflowError, self))"
proof (intro conjI impI)
  assume a: "unpack_ints (data (lumps self TEXDATA_STRING_TABLE)) = Inr offs \<and> off \<in> set offs
      \<and> (\<forall>k<128. py_index tex_data (off + int k) \<noteq> Inr 0)"
  then obtain e where "find_nul tex_data off 128 = Inl e"
    using find_nul_none[of 128 tex_data off] by blast
  then have "read_name tex_data off = Inl e" by (simp add: read_name_def)
  with a obtain e' where "read_names tex_data offs = Inl e'"
    using read_names_error by blast
  with a show "\<exists>e. lmp_read_textures self tex_data = (Inl e, self)"
    by (simp add: lmp_read_textures_def read_textures_def)
next
  assume "tex \<in> set texs \<and> 128 \<le> length tex"
  then obtain e where "write_names texs [] [] = Inl e"
    using write_names_too_long[of tex texs "[]" "[]"] by blast
  then show "\<exists>e. lmp_write_textures self (P_textures texs) = (Inl e, self)"
    by (simp add: write_textures_def)
next
  assume "length name = 128 \<and> 0 \<notin> set name"
  then have "read_textures [0, 0, 0, 0] (name @ 0 # rest) = Inl ValueError"
    by (intro read_textures_no_room) simp_all
  then show "lmp_read_textures (with_data TEXDATA_STRING_TABLE [0, 0, 0, 0] self) (name @ 0 # rest)
            = (Inl ValueError, with_data TEXDATA_STRING_TABLE [0, 0, 0, 0] self)"
    by (simp add: lmp_read_textures_def with_data_def)
next
  assume "length tex128 = 128"
  then show "lmp_write_textures self (P_textures [tex128]) = (Inl OverflowError, self)"
    by (simp add: write_textures_def)
qed

theorem texture_name_128_limit_witness:
  "(\<exists>e. lmp_read_textures (with_data TEXDATA_STRING_TABLE [0, 0, 0, 0] fresh_bsp) [65, 66]
           = (Inl e, with_data TEXDATA_STRING_TABLE [0, 0, 0, 0] fresh_bsp))
   \<and> (\<exists>e. lmp_write_textures (with_data TEXDATA_STRING_TABLE [0, 0, 0, 0] fresh_bsp)
           (P_textures [''ok'', replicate 128 CHR ''A''])
           = (Inl e, with_data TEXDATA_STRING_TABLE [0, 0, 0, 0] fresh_bsp))
   \<and> lmp_read_textures (with_data TEXDATA_STRING_TABLE [0, 0, 0, 0]
          (with_data TEXDATA_STRING_TABLE [0, 0, 0, 0] fresh_bsp)) (replicate 128 65 @ 0 # [7])
        = (Inl ValueError, with_data TEXDATA_STRING_TABLE [0, 0, 0, 0]
            (with_data TEXDATA_STRING_TABLE [0, 0, 0, 0] fresh_bsp))
   \<and> lmp_write_textures (with_data TEXDATA_STRING_TABLE [0, 0, 0, 0] fresh_bsp)
        (P_textures [replicate 128 CHR ''A''])
        = (Inl OverflowError, with_data TEXDATA_STRING_TABLE [0, 0, 0, 0] fresh_bsp)"
proof -
  let ?s = "with_data TEXDATA_STRING_TABLE [0, 0, 0, 0] (fresh_bsp :: parsed BSP)"
  have h1: "unpack_ints (data (lumps ?s TEXDATA_STRING_TABLE)) = Inr [0]"
    by (simp add: with_data_def unpack_ints_zero)
  have h2: "\<forall>k<128. py_index [65, 66 :: byte] (0 + int k) \<noteq> Inr 0"
    by (auto simp: py_index_def Let_def nth_Cons split: nat.splits)
  from texture_name_128_limit
         [of ?s "[0]" 0 "[65, 66]" "replicate 128 CHR ''A''" "[''ok'', replicate 128 CHR ''A'']"
             "replicate 128 65" "[7]" "replicate 128 CHR ''A''"]
       h1 h2
  show ?thesis by simp
qed

lemma textures_tail_example:
  "write_textures [''ab'', ''b''] = Inr ([0, 0, 0, 0, 1, 0, 0, 0], [97, 98, 0])"
  by code_simp

lemma textures_nul_example:
  "write_textures [[CHR ''a'', CHR 0x00, CHR ''b'']] = Inr ([0, 0, 0, 0], [97, 0, 98, 0])"
  "read_textures [0, 0, 0, 0] [97, 0, 98, 0] = Inr [''a'']"
  by code_simp+

text \<open>
  C10, as stated, fails: a name that holds a NUL character is ASCII and may be short, but
  decoding stops at that NUL.
\<close>

theorem textures_round_trip_counterexample:
  "\<not> (\<forall>texs. (\<forall>tex \<in> set texs. length tex < 128 \<and> list_all (\<lambda>c. (of_char c :: nat) < 128) tex)
        \<longrightarrow> (\<exists>table dat. write_textures texs = Inr (table, dat)
               \<and> read_textures table dat = Inr texs))"
proof
  assume "\<forall>texs. (\<forall>tex \<in> set texs. length tex < 128 \<and> list_all (\<lambda>c. (of_char c :: nat) < 128) tex)
        \<longrightarrow> (\<exists>table dat. write_textures texs = Inr (table, dat)
               \<and> read_textures table dat = Inr texs)"
  from this[rule_format, of "[[CHR ''a'', CHR 0x00, CHR ''b'']]"]
  obtain table dat where
    "write_textures [[CHR ''a'', CHR 0x00, CHR ''b'']] = Inr (table, dat)"
    "read_textures table dat = Inr [[CHR ''a'', CHR 0x00, CHR ''b'']]"
    by auto
  with textures_nul_example show False by simp
qed

text \<open>
  C10, amended. For every list of names that are ASCII, hold no NUL character and are shorter
  than 128 characters, and whose encoded sizes add up to less than \<open>2^31\<close> bytes (the offsets
  are signed 32-bit fields), encoding succeeds, stores the offset table in its slot and returns
  the blob, and decoding the blob against that table returns the list as it was, in order.
\<close>

theorem textures_round_trip:
  assumes "\<forall>tex \<in> set texs. length tex < 128 \<and> CHR 0x00 \<notin> set tex
              \<and> list_all (\<lambda>c. (of_char c :: nat) < 128) tex"
    and "(\<Sum>tex\<leftarrow>texs. length tex + 1) < 2 ^ 31"
  shows "\<exists>table dat. write_textures texs = Inr (table, dat)
           \<and> lmp_write_textures self (P_textures texs)
               = (Inr dat, with_data TEXDATA_STRING_TABLE table self)
           \<and> lmp_read_textures (with_data TEXDATA_STRING_TABLE table self) dat
               = (Inr (P_textures texs), with_data TEXDATA_STRING_TABLE table self)"
proof -
  from textures_encode_decode[OF assms] obtain table dat where
    w: "write_textures texs = Inr (table, dat)" and r: "read_textures table dat = Inr texs"
    by blast
  have "lmp_write_textures self (P_textures texs)
          = (Inr dat, with_data TEXDATA_STRING_TABLE table self)"
    by (simp add: w)
  moreover have "lmp_read_textures (with_data TEXDATA_STRING_TABLE table self) dat
          = (Inr (P_textures texs), with_data TEXDATA_STRING_TABLE table self)"
    by (simp add: lmp_read_textures_def with_data_def r)
  ultimately show ?thesis using w by blast
qed

theorem textures_round_trip_witness:
  "lmp_write_textures fresh_bsp (P_textures [''ab'', ''b''])
     = (Inr [97, 98, 0], with_data TEXDATA_STRING_TABLE [0, 0, 0, 0, 1, 0, 0, 0] fresh_bsp)
   \<and> lmp_read_textures (with_data TEXDATA_STRING_TABLE [0, 0, 0, 0, 1, 0, 0, 0] fresh_bsp)
       [97, 98, 0]
     = (Inr (P_textures [''ab'', ''b'']),
        with_data TEXDATA_STRING_TABLE [0, 0, 0, 0, 1, 0, 0, 0] fresh_bsp)"
proof -
  have h1: "\<forall>tex \<in> set [''ab'', ''b'']. length tex < 128 \<and> CHR 0x00 \<notin> set tex
              \<and> list_all (\<lambda>c. (of_char c :: nat) < 128) tex"
    by simp
  have h2: "(\<Sum>tex\<leftarrow>[''ab'', ''b'']. length tex + 1) < 2 ^ 31" by simp
  from textures_round_trip[OF h1 h2, of fresh_bsp] textures_tail_example
  show ?thesis by auto
qed

section \<open>Facts about the visibility tree\<close>


lemma child_of_Inr:
  assumes "child_of leafs nodes c = Inr ch"
  shows "(c < 0 \<longrightarrow> nat (- 1 - c) < length leafs \<and> ch = ChildLeaf (leafs ! nat (- 1 - c)))
       \<and> (0 \<le> c \<longrightarrow> nat c < length nodes \<and> ch = ChildNode (nat c))"
  using assms by (auto simp: child_of_def py_index_def split: if_splits)

lemma child_of_length:
  "length ns = length ns' \<Longrightarrow> child_of leafs ns c = child_of leafs ns' c"
  by (simp add: child_of_def py_index_def)

lemma map_err_Inr:
  "map_err f xs = Inr ys \<Longrightarrow> length ys = length xs \<and> (\<forall>k<length xs. f (xs ! k) = Inr (ys ! k))"
proof (induction xs arbitrary: ys)
  case Nil
  then show ?case by simp
next
  case (Cons x xs)
  from Cons.prems obtain y ys' where y: "f x = Inr y" and ys': "map_err f xs = Inr ys'"
    and eq: "ys = y # ys'"
    by (auto split: sum.splits)
  from Cons.IH [OF ys'] have len: "length ys' = length xs"
    and nth: "\<forall>k<length xs. f (xs ! k) = Inr (ys' ! k)" by simp_all
  show ?case
  proof (intro conjI allI impI)
    show "length ys = length (x # xs)" using eq len by simp
  next
    fix k assume "k < length (x # xs)"
    then show "f ((x # xs) ! k) = Inr (ys ! k)"
      using y nth eq by (cases k) simp_all
  qed
qed

lemma make_node_Inr:
  assumes "make_node planes r = Inr (n, a, b)"
  shows "a = r ! 1 \<and> b = r ! 2 \<and> mins n = (r ! 3, r ! 4, r ! 5) \<and> maxes n = (r ! 6, r ! 7, r ! 8)
       \<and> child_neg n = None \<and> child_pos n = None"
  using assms by (rule make_node.elims) (auto split: sum.splits)

lemma make_leaf_Inr:
  assumes "make_leaf i r = Inr lf"
  shows "leaf_id lf = i"
  using assms by (rule make_leaf.elims) auto


lemma link_nodes_spec:
  assumes "link_nodes ps i leafs nodes = Inr out" and "i + length ps \<le> length nodes"
  shows "length out = length nodes \<and> (\<forall>k<length nodes.
           (if i \<le> k \<and> k < i + length ps
            then \<exists>cn cp. child_of leafs nodes (fst (ps ! (k - i))) = Inr cn
                   \<and> child_of leafs nodes (snd (ps ! (k - i))) = Inr cp
                   \<and> out ! k = (nodes ! k)\<lparr>child_neg := Some cn, child_pos := Some cp\<rparr>
            else out ! k = nodes ! k))"
  using assms
proof (induction ps arbitrary: i nodes)
  case Nil
  then show ?case by auto
next
  case (Cons p rest)
  obtain a b where p: "p = (a, b)" by (cases p)
  define nodes1 where "nodes1 = (\<lambda>cn. nodes[i := (nodes ! i)\<lparr>child_neg := Some cn\<rparr>])"
  define nodes2 where
    "nodes2 = (\<lambda>cn cp. (nodes1 cn)[i := (nodes1 cn ! i)\<lparr>child_pos := Some cp\<rparr>])"
  from Cons.prems(1) obtain cn cp where cn: "child_of leafs nodes a = Inr cn"
    and cp: "child_of leafs (nodes1 cn) b = Inr cp"
    and rest: "link_nodes rest (Suc i) leafs (nodes2 cn cp) = Inr out"
    unfolding p nodes1_def nodes2_def by (auto simp: Let_def split: sum.splits)
  have i: "i < length nodes" using Cons.prems(2) by simp
  have len2: "length (nodes2 cn cp) = length nodes" by (simp add: nodes2_def nodes1_def)
  have len1: "length (nodes1 cn) = length nodes" by (simp add: nodes1_def)
  have cp': "child_of leafs nodes b = Inr cp" using cp child_of_length [OF len1] by simp
  have at_i: "nodes2 cn cp ! i = (nodes ! i)\<lparr>child_neg := Some cn, child_pos := Some cp\<rparr>"
    using i by (simp add: nodes2_def nodes1_def)
  have other: "\<And>k. k \<noteq> i \<Longrightarrow> nodes2 cn cp ! k = nodes ! k"
    by (simp add: nodes2_def nodes1_def)
  have "Suc i + length rest \<le> length (nodes2 cn cp)" using Cons.prems(2) len2 by simp
  from Cons.IH [OF rest this]
  have lo: "length out = length nodes"
    and ih: "\<forall>k<length nodes.
           (if Suc i \<le> k \<and> k < Suc i + length rest
            then \<exists>cn' cp'. child_of leafs (nodes2 cn cp) (fst (rest ! (k - Suc i))) = Inr cn'
                   \<and> child_of leafs (nodes2 cn cp) (snd (rest ! (k - Suc i))) = Inr cp'
                   \<and> out ! k = (nodes2 cn cp ! k)\<lparr>child_neg := Some cn', child_pos := Some cp'\<rparr>
            else out ! k = nodes2 cn cp ! k)"
    unfolding len2 by blast+
  show ?case
  proof (intro conjI allI impI)
    show "length out = length nodes" by (rule lo)
  next
    fix k assume k: "k < length nodes"
    consider "k < i" | "k = i" | "Suc i \<le> k" "k < Suc i + length rest" | "Suc i + length rest \<le> k"
      by linarith
    then show "if i \<le> k \<and> k < i + length (p # rest)
            then \<exists>cn cp. child_of leafs nodes (fst ((p # rest) ! (k - i))) = Inr cn
                   \<and> child_of leafs nodes (snd ((p # rest) ! (k - i))) = Inr cp
                   \<and> out ! k = (nodes ! k)\<lparr>child_neg := Some cn, child_pos := Some cp\<rparr>
            else out ! k = nodes ! k"
    proof cases
      case 1
      then show ?thesis using ih [rule_format, OF k] other [of k] by simp
    next
      case 2
      have "out ! i = nodes2 cn cp ! i" using ih [rule_format, OF i] by simp
      then show ?thesis using 2 cn cp' at_i p by simp
    next
      case 3
      then have ki: "k - i = Suc (k - Suc i)" and ne: "k \<noteq> i" by simp_all
      from ih [rule_format, OF k] 3 obtain cn' cp'
        where a: "child_of leafs (nodes2 cn cp) (fst (rest ! (k - Suc i))) = Inr cn'"
          and b: "child_of leafs (nodes2 cn cp) (snd (rest ! (k - Suc i))) = Inr cp'"
          and c: "out ! k = (nodes2 cn cp ! k)\<lparr>child_neg := Some cn', child_pos := Some cp'\<rparr>"
        by auto
      have a': "child_of leafs nodes (fst (rest ! (k - Suc i))) = Inr cn'"
        using a child_of_length [OF len2] by simp
      have b': "child_of leafs nodes (snd (rest ! (k - Suc i))) = Inr cp'"
        using b child_of_length [OF len2] by simp
      show ?thesis using 3 a' b' c other [OF ne] ki by simp
    next
      case 4
      then show ?thesis using ih [rule_format, OF k] other [of k] by simp
    qed
  qed
qed


lemma child_of_links_to:
  "child_of leafs nodes c = Inr ch \<Longrightarrow> links_to leafs (length nodes) c (Some ch)"
  using child_of_Inr [of leafs nodes c ch] by (simp add: links_to_def)

lemma py_index_0: "py_index xs 0 = Inr x \<Longrightarrow> 0 < length xs"
  by (simp add: py_index_def split: if_splits)

lemma bindE:
  assumes "(case x of Inl e \<Rightarrow> Inl e | Inr y \<Rightarrow> f y) = Inr z"
  obtains y where "x = Inr y" and "f y = Inr z"
  using assms by (cases x) auto

lemma vis_tree_Inr:
  assumes "vis_tree self = Inr (root, nodes)"
  obtains planes node_recs nds lfmt leaf_recs leafs r
  where "iter_unpack node_fmt (data (lumps self NODES)) = Inr node_recs"
    and "map_err (make_node planes) node_recs = Inr nds"
    and "leaf_fmt (version self) = Inr lfmt"
    and "iter_unpack lfmt (data (lumps self LEAFS)) = Inr leaf_recs"
    and "map_err (\<lambda>(i, r). make_leaf (int i) r) (enumerate 0 leaf_recs) = Inr leafs"
    and "link_nodes (map snd nds) 0 leafs (map fst nds) = Inr nodes"
    and "py_index nodes 0 = Inr r" and "root = 0"
  using assms unfolding vis_tree_def by (elim bindE) auto

text \<open>
  C7. Whenever \<open>vis_tree\<close> returns, it returns the node object made from the first node
  record, there is one node object per node record and one leaf object per leaf record, the
  leaf made from leaf record \<open>j\<close> having the id \<open>j\<close>; and in every node object, made from
  node record \<open>k\<close>, the negative child slot is linked for the integer at position 1 of that
  record and the positive child slot for the integer at position 2: to the leaf at index
  \<open>-1 - c\<close> when the integer \<open>c\<close> is negative, to the node at index \<open>c\<close> otherwise, be that
  node made before or after this one. For the input of one node with the children \<open>-1\<close> and
  \<open>-2\<close> and two leafs, the root's negative child is leaf 0 and its positive child is leaf 1.
\<close>

theorem vis_tree_links:
  assumes "vis_tree self = Inr (root, nodes)"
    and "iter_unpack node_fmt (data (lumps self NODES)) = Inr node_recs"
    and "leaf_fmt (version self) = Inr lfmt"
    and "iter_unpack lfmt (data (lumps self LEAFS)) = Inr leaf_recs"
  shows "root = 0 \<and> 0 < length nodes \<and> length nodes = length node_recs
       \<and> (\<exists>leafs. length leafs = length leaf_recs
            \<and> (\<forall>j<length leafs. make_leaf (int j) (leaf_recs ! j) = Inr (leafs ! j)
                   \<and> leaf_id (leafs ! j) = int j)
            \<and> (\<forall>k<length nodes.
                   links_to leafs (length nodes) (node_recs ! k ! 1) (child_neg (nodes ! k))
                 \<and> links_to leafs (length nodes) (node_recs ! k ! 2) (child_pos (nodes ! k))
                 \<and> mins (nodes ! k) = (node_recs ! k ! 3, node_recs ! k ! 4, node_recs ! k ! 5)
                 \<and> maxes (nodes ! k) = (node_recs ! k ! 6, node_recs ! k ! 7, node_recs ! k ! 8)))"
proof -
  from vis_tree_Inr [OF assms(1)] obtain planes node_recs' nds lfmt' leaf_recs' leafs r
    where "iter_unpack node_fmt (data (lumps self NODES)) = Inr node_recs'"
      and nds': "map_err (make_node planes) node_recs' = Inr nds"
      and "leaf_fmt (version self) = Inr lfmt'"
      and "iter_unpack lfmt' (data (lumps self LEAFS)) = Inr leaf_recs'"
      and leafs': "map_err (\<lambda>(i, r). make_leaf (int i) r) (enumerate 0 leaf_recs') = Inr leafs"
      and linked: "link_nodes (map snd nds) 0 leafs (map fst nds) = Inr nodes"
      and first: "py_index nodes 0 = Inr r" and root: "root = 0"
    by (rule vis_tree_Inr [OF assms(1)])
  with assms have "node_recs' = node_recs" and "leaf_recs' = leaf_recs" by simp_all
  with nds' leafs' have nds: "map_err (make_node planes) node_recs = Inr nds"
    and leafs: "map_err (\<lambda>(i, r). make_leaf (int i) r) (enumerate 0 leaf_recs) = Inr leafs"
    by simp_all
  from map_err_Inr [OF nds] have len_nds: "length nds = length node_recs"
    and nth_nds: "\<forall>k<length node_recs. make_node planes (node_recs ! k) = Inr (nds ! k)"
    by simp_all
  from map_err_Inr [OF leafs] have len_leafs: "length leafs = length leaf_recs"
    and nth_leafs: "\<forall>j<length leaf_recs. make_leaf (int j) (leaf_recs ! j) = Inr (leafs ! j)"
    by (simp_all add: nth_enumerate_eq)
  from link_nodes_spec [OF linked] have len: "length nodes = length nds"
    and nth: "\<forall>k<length nds. \<exists>cn cp.
           child_of leafs (map fst nds) (fst (snd (nds ! k))) = Inr cn
         \<and> child_of leafs (map fst nds) (snd (snd (nds ! k))) = Inr cp
         \<and> nodes ! k = (fst (nds ! k))\<lparr>child_neg := Some cn, child_pos := Some cp\<rparr>"
    by simp_all
  have nonempty: "0 < length nodes"
    using first by (rule py_index_0)
  have leaf_ok: "\<forall>j<length leafs. make_leaf (int j) (leaf_recs ! j) = Inr (leafs ! j)
                   \<and> leaf_id (leafs ! j) = int j"
  proof (intro allI impI)
    fix j assume "j < length leafs"
    then have e: "make_leaf (int j) (leaf_recs ! j) = Inr (leafs ! j)"
      using nth_leafs len_leafs by simp
    with make_leaf_Inr [OF e]
    show "make_leaf (int j) (leaf_recs ! j) = Inr (leafs ! j) \<and> leaf_id (leafs ! j) = int j"
      by simp
  qed
  have node_ok: "\<forall>k<length nodes.
                   links_to leafs (length nodes) (node_recs ! k ! 1) (child_neg (nodes ! k))
                 \<and> links_to leafs (length nodes) (node_recs ! k ! 2) (child_pos (nodes ! k))
                 \<and> mins (nodes ! k) = (node_recs ! k ! 3, node_recs ! k ! 4, node_recs ! k ! 5)
                 \<and> maxes (nodes ! k) = (node_recs ! k ! 6, node_recs ! k ! 7, node_recs ! k ! 8)"
  proof (intro allI impI)
    fix k assume k: "k < length nodes"
    then have k': "k < length nds" and k'': "k < length node_recs" using len len_nds by simp_all
    obtain n a b where nk: "nds ! k = (n, a, b)" by (cases "nds ! k")
    from nth_nds k'' nk have "make_node planes (node_recs ! k) = Inr (n, a, b)" by simp
    from make_node_Inr [OF this] have a: "a = node_recs ! k ! 1" and b: "b = node_recs ! k ! 2"
      and mn: "mins n = (node_recs ! k ! 3, node_recs ! k ! 4, node_recs ! k ! 5)"
      and mx: "maxes n = (node_recs ! k ! 6, node_recs ! k ! 7, node_recs ! k ! 8)"
      by simp_all
    from nth k' nk obtain cn cp where cn: "child_of leafs (map fst nds) a = Inr cn"
      and cp: "child_of leafs (map fst nds) b = Inr cp"
      and nd: "nodes ! k = n\<lparr>child_neg := Some cn, child_pos := Some cp\<rparr>"
      by auto
    have l: "length (map fst nds) = length nodes" using len by simp
    from child_of_links_to [OF cn] child_of_links_to [OF cp]
    show "links_to leafs (length nodes) (node_recs ! k ! 1) (child_neg (nodes ! k))
        \<and> links_to leafs (length nodes) (node_recs ! k ! 2) (child_pos (nodes ! k))
        \<and> mins (nodes ! k) = (node_recs ! k ! 3, node_recs ! k ! 4, node_recs ! k ! 5)
        \<and> maxes (nodes ! k) = (node_recs ! k ! 6, node_recs ! k ! 7, node_recs ! k ! 8)"
      unfolding l using a b mn mx nd by simp
  qed
  show ?thesis
  proof (intro conjI exI [of _ leafs])
    show "root = 0" by (rule root)
    show "0 < length nodes" by (rule nonempty)
    show "length nodes = length node_recs" using len len_nds by simp
    show "length leafs = length leaf_recs" by (rule len_leafs)
  qed (rule leaf_ok, rule node_ok)
qed



lemma node_fmt_eq: "node_fmt = [Fi, Fi, Fi, Fh, Fh, Fh, Fh, Fh, Fh, FH, FH, Fh, Fx, Fx]"
  by (simp add: node_fmt_def numeral_eq_Suc)

lemma leaf_fmt_21:
  "leaf_fmt (VERSIONS 21) = Inr [Fi, Fh, Fh, Fh, Fh, Fh, Fh, Fh, Fh, FH, FH, FH, FH, Fh, Fx, Fx]"
  by (simp add: numeral_eq_Suc)

lemma zeros_20: "replicate 20 (0::byte) = [0,0,0,0,0, 0,0,0,0,0, 0,0,0,0,0, 0,0,0,0,0]"
  by (simp add: numeral_eq_Suc)

lemma zeros_64: "replicate 64 (0::byte) = replicate 20 0 @ replicate 12 0 @ replicate 20 0 @ replicate 12 0"
  by (simp add: replicate_add [symmetric])

lemma zeros_12: "replicate 12 (0::byte) = [0,0,0,0,0,0, 0,0,0,0,0,0]"
  by (simp add: numeral_eq_Suc)

lemma scen_data:
  "data (lumps (one_node_two_leafs :: 'v BSP) PLANES) = replicate 20 0"
  "data (lumps (one_node_two_leafs :: 'v BSP) NODES)
     = [0, 0, 0, 0] @ [255, 255, 255, 255] @ [254, 255, 255, 255] @ replicate 20 0"
  "data (lumps (one_node_two_leafs :: 'v BSP) LEAFS) = replicate 64 0"
  by (simp_all add: one_node_two_leafs_def with_data_def fresh_bsp_def)

lemma scen_version: "version (one_node_two_leafs :: 'v BSP) = VERSIONS 21"
  by (simp add: one_node_two_leafs_def with_data_def fresh_bsp_def)

lemma scen_planes:
  "iter_unpack plane_fmt (data (lumps (one_node_two_leafs :: 'v BSP) PLANES)) = Inr [[0, 0, 0, 0, 0]]"
  by (simp add: scen_data iter_unpack_def calcsize_def records_of_def plane_fmt_def zeros_20
        unpack_signed_def unpack_unsigned_def)

lemma scen_nodes:
  "iter_unpack node_fmt (data (lumps (one_node_two_leafs :: 'v BSP) NODES))
     = Inr [[0, - 1, - 2, 0, 0, 0, 0, 0, 0, 0, 0, 0]]"
  by (simp add: scen_data iter_unpack_def calcsize_def records_of_def node_fmt_eq zeros_20
        unpack_signed_def unpack_unsigned_def)

lemma scen_leafs:
  "iter_unpack [Fi, Fh, Fh, Fh, Fh, Fh, Fh, Fh, Fh, FH, FH, FH, FH, Fh, Fx, Fx]
     (data (lumps (one_node_two_leafs :: 'v BSP) LEAFS))
     = Inr [[0, 0, 0, 0, 0, 0, 0, 0, 0, 0, 0, 0, 0, 0], [0, 0, 0, 0, 0, 0, 0, 0, 0, 0, 0, 0, 0, 0]]"
  by (simp add: scen_data iter_unpack_def calcsize_def records_of_def zeros_64 zeros_20 zeros_12
        unpack_signed_def unpack_unsigned_def upt_rec)

lemma scen_tree:
  "vis_tree (one_node_two_leafs :: 'v BSP) =
     Inr (0, [\<lparr>plane_norm = (0, 0, 0), plane_dist = 0, mins = (0, 0, 0), maxes = (0, 0, 0),
               child_neg = Some (ChildLeaf (zero_leaf 0)), child_pos = Some (ChildLeaf (zero_leaf 1))\<rparr>])"
  by (simp add: vis_tree_def scen_planes scen_nodes scen_version leaf_fmt_21 scen_leafs
        py_index_def child_of_def zero_leaf_def del: leaf_fmt.simps)

theorem vis_tree_links_witness:
  "\<exists>nodes a b. vis_tree (one_node_two_leafs :: parsed BSP) = Inr (0, nodes) \<and> length nodes = 1
     \<and> child_neg (nodes ! 0) = Some (ChildLeaf a) \<and> leaf_id a = 0
     \<and> child_pos (nodes ! 0) = Some (ChildLeaf b) \<and> leaf_id b = 1"
proof -
  let ?s = "one_node_two_leafs :: parsed BSP"
  obtain nodes where t: "vis_tree ?s = Inr (0, nodes)" using scen_tree by blast
  have n: "iter_unpack node_fmt (data (lumps ?s NODES)) = Inr [[0, - 1, - 2, 0, 0, 0, 0, 0, 0, 0, 0, 0]]"
    by (rule scen_nodes)
  have f: "leaf_fmt (version ?s)
             = Inr [Fi, Fh, Fh, Fh, Fh, Fh, Fh, Fh, Fh, FH, FH, FH, FH, Fh, Fx, Fx]"
    by (simp only: scen_version leaf_fmt_21)
  have l: "iter_unpack [Fi, Fh, Fh, Fh, Fh, Fh, Fh, Fh, Fh, FH, FH, FH, FH, Fh, Fx, Fx]
             (data (lumps ?s LEAFS))
           = Inr [[0, 0, 0, 0, 0, 0, 0, 0, 0, 0, 0, 0, 0, 0], [0, 0, 0, 0, 0, 0, 0, 0, 0, 0, 0, 0, 0, 0]]"
    by (rule scen_leafs)
  let ?nr = "[[0, - 1, - 2, 0, 0, 0, 0, 0, 0, 0, 0, 0 :: int]]"
  let ?lr = "[[0, 0, 0, 0, 0, 0, 0, 0, 0, 0, 0, 0, 0, 0], [0, 0, 0, 0, 0, 0, 0, 0, 0, 0, 0, 0, 0, 0 :: int]]"
  from vis_tree_links [OF t n f l] obtain leafs
    where len': "length nodes = length ?nr" and two': "length leafs = length ?lr"
      and ids': "\<forall>j<length leafs. make_leaf (int j) (?lr ! j) = Inr (leafs ! j)
                   \<and> leaf_id (leafs ! j) = int j"
      and lk: "\<forall>k<length nodes.
                   links_to leafs (length nodes) (?nr ! k ! 1) (child_neg (nodes ! k))
                 \<and> links_to leafs (length nodes) (?nr ! k ! 2) (child_pos (nodes ! k))
                 \<and> mins (nodes ! k) = (?nr ! k ! 3, ?nr ! k ! 4, ?nr ! k ! 5)
                 \<and> maxes (nodes ! k) = (?nr ! k ! 6, ?nr ! k ! 7, ?nr ! k ! 8)"
    by blast
  from len' have len: "length nodes = 1" by simp
  from two' have two: "length leafs = 2" by simp
  from ids' two have ids: "leaf_id (leafs ! 0) = 0" "leaf_id (leafs ! 1) = 1" by simp_all
  from lk len have neg: "links_to leafs (length nodes) (- 1) (child_neg (nodes ! 0))"
    and pos: "links_to leafs (length nodes) (- 2) (child_pos (nodes ! 0))" by simp_all
  from neg have a: "child_neg (nodes ! 0) = Some (ChildLeaf (leafs ! 0))" by (simp add: links_to_def)
  from pos have b: "child_pos (nodes ! 0) = Some (ChildLeaf (leafs ! 1))" by (simp add: links_to_def)
  from t len a b ids show ?thesis by blast
qed

section \<open>Facts about the overlays\<close>


lemma overlay_fmt_eq:
  "overlay_fmt = [Fi, Fh, FH, Fi, Fi] @ replicate 62 Fi @ replicate 22 Ff"
  by (simp add: overlay_fmt_def numeral_eq_Suc)

lemma calcsize_overlay: "calcsize overlay_fmt = 352"
  by (simp add: overlay_fmt_def calcsize_def sum_list_replicate)

lemma unpack_items_zeros_i:
  "unpack_items (replicate n Fi @ fs) (replicate (4 * n) 0 @ rest)
     = replicate n 0 @ unpack_items fs rest"
proof (induction n)
  case 0
  then show ?case by simp
next
  case (Suc n)
  have "replicate (4 * Suc n) (0::byte) = [0, 0, 0, 0] @ replicate (4 * n) 0"
    by (simp add: numeral_eq_Suc)
  then show ?case using Suc by (simp add: unpack_signed_def)
qed

lemma unpack_items_zeros_f:
  "unpack_items (replicate n Ff @ fs) (replicate (4 * n) 0 @ rest)
     = replicate n 0 @ unpack_items fs rest"
proof (induction n)
  case 0
  then show ?case by simp
next
  case (Suc n)
  have "replicate (4 * Suc n) (0::byte) = [0, 0, 0, 0] @ replicate (4 * n) 0"
    by (simp add: numeral_eq_Suc)
  then show ?case using Suc by (simp add: unpack_unsigned_def)
qed

lemma overlay_record_items:
  "unpack_items overlay_fmt (overlay_record lo hi)
     = [1, 0, unpack_unsigned [lo, hi], 7, 9] @ replicate 62 0 @ replicate 22 0"
proof -
  have "unpack_items (replicate 62 Fi @ replicate 22 Ff @ []) (replicate (4 * 62) 0 @ replicate (4 * 22) 0 @ [])
          = replicate 62 0 @ replicate 22 0 @ unpack_items [] []"
    by (simp only: unpack_items_zeros_i unpack_items_zeros_f)
  then have "unpack_items (replicate 62 Fi @ replicate 22 Ff) (replicate 248 0 @ replicate 88 0)
          = replicate 62 0 @ replicate 22 0"
    by simp
  then show ?thesis
    by (simp add: overlay_fmt_eq overlay_record_def unpack_signed_def)
qed

lemma length_overlay_record: "length (overlay_record lo hi) = 352"
  by (simp add: overlay_record_def)

lemma overlay_record_blocks:
  "iter_unpack overlay_fmt (overlay_record lo hi)
     = Inr [[1, 0, unpack_unsigned [lo, hi], 7, 9] @ replicate 62 0 @ replicate 22 0]"
  by (simp add: iter_unpack_def calcsize_overlay length_overlay_record records_of_def
        overlay_record_items)


lemma py_slice_0_3:
  "py_slice block 0 3 = [a, b, c] \<Longrightarrow> block ! 2 = c \<and> 3 \<le> length block"
  by (cases block; cases "tl block"; cases "tl (tl block)")
     (auto simp: py_slice_def slice_bound_def split: if_splits)

lemma low_bits: "(x::int) AND 16383 = x mod 16384"
proof -
  have m: "(16383::int) = mask 14" by (simp add: mask_eq_exp_minus_1)
  have "x AND mask 14 = take_bit 14 x" by (simp only: take_bit_eq_mask)
  also have "\<dots> = x mod 16384" by (simp add: take_bit_eq_mod)
  finally show ?thesis by (simp only: m)
qed

lemma high_bits: "drop_bit 14 (x::int) = x div 16384"
  by (simp add: drop_bit_eq_div)

lemma faces_slice:
  assumes "0 \<le> n" and "n \<le> 64"
  shows "py_slice block 3 (3 + n) = take (nat n) (face_array block)"
proof -
  have "slice_bound (length block) 3 = min 3 (length block)" by (simp add: slice_bound_def)
  moreover have "slice_bound (length block) (3 + n) = min (3 + nat n) (length block)"
    using assms by (simp add: slice_bound_def nat_add_distrib)
  ultimately have "py_slice block 3 (3 + n) = take (nat n) (drop 3 block)"
    by (cases "3 \<le> length block") (auto simp: py_slice_def min_def)
  moreover have "take (nat n) (take 64 (drop 3 block)) = take (nat n) (drop 3 block)"
    using assms by (simp add: min_def)
  ultimately show ?thesis by (simp add: face_array_def)
qed

lemma read_overlay_too_many:
  assumes "64 < block ! 2 mod 16384"
  shows "read_overlay get_texinfo self block = (Inl ValueError, self)"
proof (cases "\<exists>a b c. py_slice block 0 3 = [a, b, c]")
  case True
  then obtain a b c where abc: "py_slice block 0 3 = [a, b, c]" by blast
  with py_slice_0_3 [OF abc] assms show ?thesis
    by (simp add: read_overlay_def low_bits Let_def)
next
  case False
  then show ?thesis
    by (auto simp: read_overlay_def split: list.splits)
qed

lemma read_overlay_Inr:
  assumes "read_overlay get_texinfo self block = (Inr over, self1)"
  shows "overlay_face_count over = block ! 2 mod 16384
       \<and> overlay_render_order over = block ! 2 div 16384
       \<and> overlay_face_count over \<le> 64
       \<and> overlay_faces over = take (nat (overlay_face_count over)) (face_array block)
       \<and> 0 \<le> overlay_render_order over \<and> overlay_render_order over < 3"
proof -
  from assms obtain a b c where abc: "py_slice block 0 3 = [a, b, c]"
    by (auto simp: read_overlay_def split: list.splits)
  from py_slice_0_3 [OF abc] have c: "c = block ! 2" by simp
  have le: "c mod 16384 \<le> 64"
    using assms abc by (auto simp: read_overlay_def low_bits Let_def split: if_splits)
  have ge: "0 \<le> c mod 16384" by simp
  from assms abc le obtain i org nrm tex umin umax vmin vmax p1 p2 p3 p4
    where "Overlay_init i org nrm tex (c mod 16384) (py_slice block 3 (3 + c mod 16384))
             (c div 16384) umin umax vmin vmax p1 p2 p3 p4 = Inr over"
    by (auto simp: read_overlay_def low_bits high_bits Let_def
             split: list.splits sum.splits prod.splits if_splits)
  then have "overlay_face_count over = c mod 16384"
    and "overlay_render_order over = c div 16384"
    and "overlay_faces over = py_slice block 3 (3 + c mod 16384)"
    and "0 \<le> c div 16384" and "c div 16384 < 3"
    by (auto simp: Overlay_init_def split: if_splits)
  with le ge c faces_slice [OF ge le] show ?thesis by simp
qed

lemma read_overlay_bad_order:
  assumes "3 \<le> block ! 2 div 16384"
  shows "\<exists>e self1. read_overlay get_texinfo self block = (Inl e, self1)"
proof (cases "read_overlay get_texinfo self block")
  case (Pair r self1)
  show ?thesis
  proof (cases r)
    case (Inl e)
    with Pair show ?thesis by blast
  next
    case (Inr over)
    with Pair read_overlay_Inr [of get_texinfo self block over self1] assms
    show ?thesis by simp
  qed
qed

lemma read_overlays_Inr:
  "read_overlays get_texinfo self blocks = (Inr overlays, self') \<Longrightarrow>
     length overlays = length blocks
   \<and> (\<forall>k<length blocks. \<exists>s1 s2. read_overlay get_texinfo s1 (blocks ! k) = (Inr (overlays ! k), s2))"
proof (induction blocks arbitrary: self overlays)
  case Nil
  then show ?case by simp
next
  case (Cons block blocks)
  from Cons.prems obtain over self1 rest
    where hd: "read_overlay get_texinfo self block = (Inr over, self1)"
      and tl: "read_overlays get_texinfo self1 blocks = (Inr rest, self')"
      and eq: "overlays = over # rest"
    by (auto split: prod.splits sum.splits)
  from Cons.IH [OF tl] have len: "length rest = length blocks"
    and nth: "\<forall>k<length blocks. \<exists>s1 s2. read_overlay get_texinfo s1 (blocks ! k) = (Inr (rest ! k), s2)"
    by simp_all
  show ?case
  proof (intro conjI allI impI)
    show "length overlays = length (block # blocks)" using eq len by simp
  next
    fix k assume k: "k < length (block # blocks)"
    show "\<exists>s1 s2. read_overlay get_texinfo s1 ((block # blocks) ! k) = (Inr (overlays ! k), s2)"
    proof (cases k)
      case 0
      then show ?thesis using hd eq by auto
    next
      case (Suc j)
      then show ?thesis using nth k eq by simp
    qed
  qed
qed

lemma read_overlays_fail:
  "k < length blocks \<Longrightarrow> \<forall>s. \<exists>e s'. read_overlay get_texinfo s (blocks ! k) = (Inl e, s') \<Longrightarrow>
     \<exists>e s'. read_overlays get_texinfo self blocks = (Inl e, s')"
proof (induction blocks arbitrary: self k)
  case Nil
  then show ?case by simp
next
  case (Cons block blocks)
  show ?case
  proof (cases "read_overlay get_texinfo self block")
    case (Pair r self1)
    show ?thesis
    proof (cases r)
      case (Inl e)
      then show ?thesis using Pair by simp
    next
      case (Inr over)
      have "k \<noteq> 0"
      proof
        assume "k = 0"
        with Cons.prems(2) [rule_format, of self]
        obtain e s' where "read_overlay get_texinfo self block = (Inl e, s')"
          by auto
        with Pair Inr show False by simp
      qed
      then obtain j where j: "k = Suc j" by (cases k) auto
      with Cons.prems have "j < length blocks"
        and "\<forall>s. \<exists>e s'. read_overlay get_texinfo s (blocks ! j) = (Inl e, s')" by simp_all
      from Cons.IH [OF this] obtain e s' where "read_overlays get_texinfo self1 blocks = (Inl e, s')"
        by blast
      then show ?thesis using Pair Inr by simp
    qed
  qed
qed

lemma take3_drop:
  assumes "a + 3 \<le> length xs"
  shows "take 3 (drop a xs) = [xs ! a, xs ! (a + 1), xs ! (a + 2)]"
  using assms by (auto simp: list_eq_iff_nth_eq nth_Cons split: nat.splits)

lemma take4_drop:
  assumes "a + 4 \<le> length xs"
  shows "take 4 (drop a xs) = [xs ! a, xs ! (a + 1), xs ! (a + 2), xs ! (a + 3)]"
  using assms by (auto simp: list_eq_iff_nth_eq nth_Cons numeral_3_eq_3 split: nat.splits)

lemma py_slice_3:
  assumes "a + 3 \<le> length xs"
  shows "py_slice xs (int a) (int a + 3) = [xs ! a, xs ! (a + 1), xs ! (a + 2)]"
  using py_slice_nat [of a 3 xs] assms by (simp add: take3_drop)

lemma vec_at_nat:
  assumes "a + 3 \<le> length block"
  shows "vec_at block (int a) = Inr (block ! a, block ! (a + 1), block ! (a + 2))"
  using py_slice_3 [OF assms] by (simp add: vec_at_def)

lemma py_slice_4:
  assumes "a + 4 \<le> length xs"
  shows "py_slice xs (int a) (int a + 4) = [xs ! a, xs ! (a + 1), xs ! (a + 2), xs ! (a + 3)]"
  using py_slice_nat [of a 4 xs] assms by (simp add: take4_drop)


lemma read_overlay_eq:
  assumes len: "length block = 89"
    and fc: "block ! 2 mod 16384 \<le> 64"
    and get: "get_texinfo self = (Inr infos, self1)"
    and tex: "py_index infos (block ! 1) = Inr tex"
  shows "read_overlay get_texinfo self block =
           (Overlay_init (block ! 0) (block ! 83, block ! 84, block ! 85)
              (block ! 86, block ! 87, block ! 88) tex (block ! 2 mod 16384)
              (take (nat (block ! 2 mod 16384)) (face_array block)) (block ! 2 div 16384)
              (block ! 67) (block ! 68) (block ! 69) (block ! 70)
              (block ! 71, block ! 72, block ! 73) (block ! 74, block ! 75, block ! 76)
              (block ! 77, block ! 78, block ! 79) (block ! 80, block ! 81, block ! 82), self1)"
proof -
  have s0: "py_slice block 0 3 = [block ! 0, block ! 1, block ! 2]"
    using py_slice_3 [of 0 block] len by (simp add: numeral_2_eq_2)
  have s67: "py_slice block 67 71 = [block ! 67, block ! 68, block ! 69, block ! 70]"
    using py_slice_4 [of 67 block] len by simp
  have v: "vec_at block 71 = Inr (block ! 71, block ! 72, block ! 73)"
    "vec_at block 74 = Inr (block ! 74, block ! 75, block ! 76)"
    "vec_at block 77 = Inr (block ! 77, block ! 78, block ! 79)"
    "vec_at block 80 = Inr (block ! 80, block ! 81, block ! 82)"
    "vec_at block 83 = Inr (block ! 83, block ! 84, block ! 85)"
    "vec_at block 86 = Inr (block ! 86, block ! 87, block ! 88)"
    using vec_at_nat [of 71 block] vec_at_nat [of 74 block] vec_at_nat [of 77 block]
      vec_at_nat [of 80 block] vec_at_nat [of 83 block] vec_at_nat [of 86 block] len
    by simp_all
  have ge: "0 \<le> block ! 2 mod 16384" by simp
  show ?thesis
    unfolding read_overlay_def s0 s67
    using fc get tex len faces_slice [OF ge fc]
    by (simp add: v low_bits high_bits Let_def)
qed

lemma read_overlay_ok:
  assumes "length block = 89" and "block ! 2 mod 16384 \<le> 64"
    and "0 \<le> block ! 2" and "block ! 2 div 16384 < 3"
    and "get_texinfo self = (Inr infos, self1)"
    and "py_index infos (block ! 1) = Inr tex"
  shows "\<exists>over. read_overlay get_texinfo self block = (Inr over, self1)"
proof -
  have "0 \<le> block ! 2 div 16384" using assms(3) by arith
  with assms(4) show ?thesis
    unfolding read_overlay_eq [of block get_texinfo self infos self1 tex, OF assms(1,2,5,6)]
    by (simp add: Overlay_init_def)
qed

lemma read_overlay_order_3:
  assumes "length block = 89" and "block ! 2 mod 16384 \<le> 64"
    and "3 \<le> block ! 2 div 16384"
    and "get_texinfo self = (Inr infos, self1)"
    and "py_index infos (block ! 1) = Inr tex"
  shows "read_overlay get_texinfo self block = (Inl ValueError, self1)"
  using assms(3)
  unfolding read_overlay_eq [of block get_texinfo self infos self1 tex, OF assms(1,2,4,5)]
  by (simp add: Overlay_init_def)

lemma lmp_read_overlays_one:
  assumes "iter_unpack overlay_fmt dat = Inr [block]"
    and "read_overlay get_texinfo self block = (Inr over, self1)"
  shows "lmp_read_overlays get_texinfo self dat = (Inr [over], self1)"
  using assms by (simp add: lmp_read_overlays_def)

lemma overlay_record_block:
  fixes lo hi :: byte
  defines "block \<equiv> [1, 0, unpack_unsigned [lo, hi], 7, 9] @ replicate 62 0 @ replicate 22 0"
  shows "length block = 89" and "block ! 1 = 0" and "block ! 2 = unpack_unsigned [lo, hi]"
    and "take 2 (face_array block) = [7, 9]"
  by (simp_all add: block_def face_array_def)

lemma lmp_read_overlays_Inr:
  assumes "iter_unpack overlay_fmt dat = Inr blocks"
    and "lmp_read_overlays get_texinfo self dat = (Inr overlays, self1)"
  shows "length overlays = length blocks
       \<and> (\<forall>k<length blocks.
              overlay_face_count (overlays ! k) = blocks ! k ! 2 mod 16384
            \<and> overlay_render_order (overlays ! k) = blocks ! k ! 2 div 16384
            \<and> overlay_faces (overlays ! k)
                = take (nat (blocks ! k ! 2 mod 16384)) (face_array (blocks ! k)))"
proof -
  from assms have r: "read_overlays get_texinfo self blocks = (Inr overlays, self1)"
    by (simp add: lmp_read_overlays_def)
  from read_overlays_Inr [OF r] have len: "length overlays = length blocks"
    and each: "\<forall>k<length blocks. \<exists>s1 s2.
                 read_overlay get_texinfo s1 (blocks ! k) = (Inr (overlays ! k), s2)"
    by simp_all
  have "\<forall>k<length blocks.
              overlay_face_count (overlays ! k) = blocks ! k ! 2 mod 16384
            \<and> overlay_render_order (overlays ! k) = blocks ! k ! 2 div 16384
            \<and> overlay_faces (overlays ! k)
                = take (nat (blocks ! k ! 2 mod 16384)) (face_array (blocks ! k))"
  proof (intro allI impI)
    fix k assume "k < length blocks"
    with each obtain s1 s2
      where "read_overlay get_texinfo s1 (blocks ! k) = (Inr (overlays ! k), s2)" by blast
    from read_overlay_Inr [OF this]
    show "overlay_face_count (overlays ! k) = blocks ! k ! 2 mod 16384
        \<and> overlay_render_order (overlays ! k) = blocks ! k ! 2 div 16384
        \<and> overlay_faces (overlays ! k)
            = take (nat (blocks ! k ! 2 mod 16384)) (face_array (blocks ! k))"
      by simp
  qed
  with len show ?thesis by blast
qed

lemma length_unpack_items:
  "length (unpack_items fs buf) = length (filter (\<lambda>f. f \<noteq> Fx) fs)"
  by (induction fs buf rule: unpack_items.induct) simp_all

lemma overlay_blocks_shape:
  assumes "iter_unpack overlay_fmt dat = Inr blocks" and "k < length blocks"
  shows "length (blocks ! k) = 89 \<and> 0 \<le> blocks ! k ! 2"
proof -
  from assms obtain buf where b: "blocks ! k = unpack_items overlay_fmt buf"
    by (auto simp: iter_unpack_def split: if_splits)
  have "length (unpack_items overlay_fmt buf) = 89"
    by (simp add: length_unpack_items overlay_fmt_def)
  moreover have "0 \<le> unpack_items overlay_fmt buf ! 2"
    by (simp add: overlay_fmt_eq unpack_unsigned_def)
  ultimately show ?thesis using b by simp
qed

lemma read_overlays_stable:
  assumes "\<forall>b\<in>set blocks. \<exists>over. read_overlay get_texinfo self1 b = (Inr over, self1)"
  shows "\<exists>overlays. read_overlays get_texinfo self1 blocks = (Inr overlays, self1)"
  using assms
proof (induction blocks)
  case Nil
  then show ?case by simp
next
  case (Cons b blocks)
  then obtain over overlays where "read_overlay get_texinfo self1 b = (Inr over, self1)"
    and "read_overlays get_texinfo self1 blocks = (Inr overlays, self1)"
    by auto
  then show ?case by simp
qed

lemma read_overlays_ok:
  assumes "\<forall>b\<in>set blocks. \<exists>over. read_overlay get_texinfo self b = (Inr over, self1)"
    and "\<forall>b\<in>set blocks. \<exists>over. read_overlay get_texinfo self1 b = (Inr over, self1)"
  shows "\<exists>overlays. read_overlays get_texinfo self blocks
           = (Inr overlays, if blocks = [] then self else self1)"
proof (cases blocks)
  case Nil
  then show ?thesis by simp
next
  case (Cons b rest)
  with assms(1) obtain over where o: "read_overlay get_texinfo self b = (Inr over, self1)"
    by auto
  from assms(2) Cons
  have "\<forall>b\<in>set rest. \<exists>over. read_overlay get_texinfo self1 b = (Inr over, self1)" by simp
  from read_overlays_stable [OF this] obtain overlays
    where "read_overlays get_texinfo self1 rest = (Inr overlays, self1)" by blast
  with o Cons show ?thesis by simp
qed

text \<open>
  C6, as stated, fails: the record whose packed field is \<open>0xC002\<close> has a face count of 2,
  which does not exceed 64, and a render order of 3, which the validator of
  \<open>Overlay.render_order\<close> refuses; decoding raises \<open>ValueError\<close> and there is no list of
  faces, though the texinfo index of the record is that of an entry.
\<close>

theorem overlay_render_order_3_counterexample:
  "iter_unpack overlay_fmt (overlay_record 2 192)
     = Inr [[1, 0, 49154, 7, 9] @ replicate 62 0 @ replicate 22 0]
   \<and> (49154 :: int) mod 2 ^ 14 = 2
   \<and> lmp_read_overlays (\<lambda>s. (Inr [''tools/toolsblack''], s)) (fresh_bsp :: parsed BSP)
        (overlay_record 2 192) = (Inl ValueError, fresh_bsp)"
proof (intro conjI)
  let ?get = "\<lambda>s :: parsed BSP. (Inr [''tools/toolsblack''], s) :: (error + string list) \<times> parsed BSP"
  let ?b = "[1, 0, 49154, 7, 9] @ replicate 62 0 @ replicate 22 (0 :: int)"
  have u: "unpack_unsigned [2, 192] = 49154" by (simp add: unpack_unsigned_def)
  show blocks: "iter_unpack overlay_fmt (overlay_record 2 192) = Inr [?b]"
    using overlay_record_blocks [of 2 192] u by simp
  show "(49154 :: int) mod 2 ^ 14 = 2" by simp
  have "read_overlay ?get fresh_bsp ?b = (Inl ValueError, fresh_bsp)"
    by (rule read_overlay_order_3 [where infos = "[''tools/toolsblack'']"])
       (simp_all add: py_index_def)
  then show "lmp_read_overlays ?get fresh_bsp (overlay_record 2 192) = (Inl ValueError, fresh_bsp)"
    using blocks by (simp add: lmp_read_overlays_def)
qed

text \<open>
  C6, amended. Of the packed field of a record, the third of its 89 fields, the face count
  is the low 14 bits and the render order the bits above them. When in every record the
  face count is at most 64, the render order is below 3 and the texinfo index is that of an
  entry of the texinfo list (which the view returns, from the first read on unchanged),
  decoding returns one overlay per record, with that face count, that render order and, as
  its faces, the first face-count entries of the 64 slots of the face array. A record whose
  face count exceeds 64 or whose render order is 3 makes decoding raise; when the first
  record has more than 64 faces, it raises \<open>ValueError\<close> and the BSP object is unchanged.
\<close>

theorem overlay_face_count_and_order:
  assumes "iter_unpack overlay_fmt dat = Inr blocks"
    and "get_texinfo self = (Inr infos, self1)"
    and "get_texinfo self1 = (Inr infos, self1)"
  shows "((\<forall>k<length blocks. blocks ! k ! 2 mod 2 ^ 14 \<le> 64 \<and> blocks ! k ! 2 div 2 ^ 14 < 3
              \<and> (\<exists>tex. py_index infos (blocks ! k ! 1) = Inr tex)) \<longrightarrow>
           (\<exists>overlays. lmp_read_overlays get_texinfo self dat
                         = (Inr overlays, if blocks = [] then self else self1)
              \<and> length overlays = length blocks
              \<and> (\<forall>k<length blocks.
                     overlay_face_count (overlays ! k) = blocks ! k ! 2 mod 2 ^ 14
                   \<and> overlay_render_order (overlays ! k) = blocks ! k ! 2 div 2 ^ 14
                   \<and> overlay_faces (overlays ! k)
                       = take (nat (blocks ! k ! 2 mod 2 ^ 14)) (face_array (blocks ! k)))))
       \<and> (\<forall>k<length blocks. 64 < blocks ! k ! 2 mod 2 ^ 14 \<or> 3 \<le> blocks ! k ! 2 div 2 ^ 14 \<longrightarrow>
            (\<exists>e self2. lmp_read_overlays get_texinfo self dat = (Inl e, self2)))
       \<and> (blocks \<noteq> [] \<and> 64 < blocks ! 0 ! 2 mod 2 ^ 14 \<longrightarrow>
            lmp_read_overlays get_texinfo self dat = (Inl ValueError, self))"
proof (intro conjI)
  show "(\<forall>k<length blocks. blocks ! k ! 2 mod 2 ^ 14 \<le> 64 \<and> blocks ! k ! 2 div 2 ^ 14 < 3
              \<and> (\<exists>tex. py_index infos (blocks ! k ! 1) = Inr tex)) \<longrightarrow>
           (\<exists>overlays. lmp_read_overlays get_texinfo self dat
                         = (Inr overlays, if blocks = [] then self else self1)
              \<and> length overlays = length blocks
              \<and> (\<forall>k<length blocks.
                     overlay_face_count (overlays ! k) = blocks ! k ! 2 mod 2 ^ 14
                   \<and> overlay_render_order (overlays ! k) = blocks ! k ! 2 div 2 ^ 14
                   \<and> overlay_faces (overlays ! k)
                       = take (nat (blocks ! k ! 2 mod 2 ^ 14)) (face_array (blocks ! k))))"
  proof
    assume good: "\<forall>k<length blocks. blocks ! k ! 2 mod 2 ^ 14 \<le> 64 \<and> blocks ! k ! 2 div 2 ^ 14 < 3
              \<and> (\<exists>tex. py_index infos (blocks ! k ! 1) = Inr tex)"
    have each: "\<exists>over. read_overlay get_texinfo s b = (Inr over, self1)"
      if b: "b \<in> set blocks" and s: "get_texinfo s = (Inr infos, self1)" for b s
    proof -
      from b obtain k where k: "k < length blocks" and bk: "b = blocks ! k"
        by (auto simp: in_set_conv_nth)
      from overlay_blocks_shape [OF assms(1) k] have "length b = 89" and "0 \<le> b ! 2"
        using bk by simp_all
      moreover from good k bk have "b ! 2 mod 16384 \<le> 64" and "b ! 2 div 16384 < 3" by simp_all
      moreover from good k bk obtain tex where "py_index infos (b ! 1) = Inr tex" by auto
      ultimately show ?thesis using s by (intro read_overlay_ok)
    qed
    have "\<exists>overlays. read_overlays get_texinfo self blocks
            = (Inr overlays, if blocks = [] then self else self1)"
      using each assms(2,3) by (intro read_overlays_ok) blast+
    then obtain overlays where r: "lmp_read_overlays get_texinfo self dat
            = (Inr overlays, if blocks = [] then self else self1)"
      using assms(1) by (auto simp: lmp_read_overlays_def)
    from lmp_read_overlays_Inr [OF assms(1) r] r
    show "\<exists>overlays. lmp_read_overlays get_texinfo self dat
                         = (Inr overlays, if blocks = [] then self else self1)
              \<and> length overlays = length blocks
              \<and> (\<forall>k<length blocks.
                     overlay_face_count (overlays ! k) = blocks ! k ! 2 mod 2 ^ 14
                   \<and> overlay_render_order (overlays ! k) = blocks ! k ! 2 div 2 ^ 14
                   \<and> overlay_faces (overlays ! k)
                       = take (nat (blocks ! k ! 2 mod 2 ^ 14)) (face_array (blocks ! k)))"
      by (intro exI [of _ overlays]) simp
  qed
next
  show "\<forall>k<length blocks. 64 < blocks ! k ! 2 mod 2 ^ 14 \<or> 3 \<le> blocks ! k ! 2 div 2 ^ 14 \<longrightarrow>
            (\<exists>e self2. lmp_read_overlays get_texinfo self dat = (Inl e, self2))"
  proof (intro allI impI)
    fix k assume k: "k < length blocks"
      and bad: "64 < blocks ! k ! 2 mod 2 ^ 14 \<or> 3 \<le> blocks ! k ! 2 div 2 ^ 14"
    have "\<forall>s. \<exists>e s'. read_overlay get_texinfo s (blocks ! k) = (Inl e, s')"
    proof
      fix s
      from bad show "\<exists>e s'. read_overlay get_texinfo s (blocks ! k) = (Inl e, s')"
      proof
        assume "64 < blocks ! k ! 2 mod 2 ^ 14"
        then show ?thesis using read_overlay_too_many [of "blocks ! k" get_texinfo s] by auto
      next
        assume "3 \<le> blocks ! k ! 2 div 2 ^ 14"
        then show ?thesis using read_overlay_bad_order [of "blocks ! k" get_texinfo s] by simp
      qed
    qed
    from read_overlays_fail [OF k this]
    show "\<exists>e self2. lmp_read_overlays get_texinfo self dat = (Inl e, self2)"
      using assms(1) by (simp add: lmp_read_overlays_def)
  qed
next
  show "blocks \<noteq> [] \<and> 64 < blocks ! 0 ! 2 mod 2 ^ 14 \<longrightarrow>
            lmp_read_overlays get_texinfo self dat = (Inl ValueError, self)"
  proof
    assume a: "blocks \<noteq> [] \<and> 64 < blocks ! 0 ! 2 mod 2 ^ 14"
    then obtain block rest where b: "blocks = block # rest" by (cases blocks) auto
    with a have "read_overlay get_texinfo self block = (Inl ValueError, self)"
      using read_overlay_too_many [of block get_texinfo self] by simp
    then show "lmp_read_overlays get_texinfo self dat = (Inl ValueError, self)"
      using assms(1) b by (simp add: lmp_read_overlays_def)
  qed
qed


theorem overlay_face_count_and_order_witness:
  "(\<exists>overlays. lmp_read_overlays (\<lambda>s. (Inr [''tools/toolsblack''], s)) (fresh_bsp :: parsed BSP)
                   (overlay_record 2 64) = (Inr overlays, fresh_bsp)
      \<and> length overlays = 1
      \<and> overlay_face_count (overlays ! 0) = 2
      \<and> overlay_render_order (overlays ! 0) = 1
      \<and> overlay_faces (overlays ! 0) = [7, 9])
   \<and> lmp_read_overlays (\<lambda>s. (Inr [''tools/toolsblack''], s)) (fresh_bsp :: parsed BSP)
         (overlay_record 65 0) = (Inl ValueError, fresh_bsp)
   \<and> (\<exists>e self2. lmp_read_overlays (\<lambda>s. (Inr [''tools/toolsblack''], s)) (fresh_bsp :: parsed BSP)
         (overlay_record 2 192) = (Inl e, self2))"
proof (intro conjI)
  let ?get = "\<lambda>s :: parsed BSP. (Inr [''tools/toolsblack''], s) :: (error + string list) \<times> parsed BSP"
  have u: "unpack_unsigned [2, 64] = 16386" "unpack_unsigned [65, 0] = 65"
    "unpack_unsigned [2, 192] = 49154"
    by (simp_all add: unpack_unsigned_def)
  have t: "iter_unpack overlay_fmt (overlay_record lo hi)
             = Inr [[1, 0, unpack_unsigned [lo, hi], 7, 9] @ replicate 62 0 @ replicate 22 0]
        \<and> ?get fresh_bsp = (Inr [''tools/toolsblack''], fresh_bsp)" for lo hi
    by (simp add: overlay_record_blocks)
  from overlay_face_count_and_order
         [of "overlay_record 2 64"
             "[[1, 0, unpack_unsigned [2, 64], 7, 9] @ replicate 62 0 @ replicate 22 0]"
             ?get fresh_bsp "[''tools/toolsblack'']" fresh_bsp]
       t [of 2 64] overlay_record_block [of 2 64] u
  show "\<exists>overlays. lmp_read_overlays ?get fresh_bsp (overlay_record 2 64)
                    = (Inr overlays, fresh_bsp)
      \<and> length overlays = 1
      \<and> overlay_face_count (overlays ! 0) = 2
      \<and> overlay_render_order (overlays ! 0) = 1
      \<and> overlay_faces (overlays ! 0) = [7, 9]"
    by (simp add: py_index_def)
  from overlay_face_count_and_order
         [of "overlay_record 65 0"
             "[[1, 0, unpack_unsigned [65, 0], 7, 9] @ replicate 62 0 @ replicate 22 0]"
             ?get fresh_bsp "[''tools/toolsblack'']" fresh_bsp]
       t [of 65 0] overlay_record_block [of 65 0] u
  show "lmp_read_overlays ?get fresh_bsp (overlay_record 65 0) = (Inl ValueError, fresh_bsp)"
    by simp
  from overlay_face_count_and_order
         [of "overlay_record 2 192"
             "[[1, 0, unpack_unsigned [2, 192], 7, 9] @ replicate 62 0 @ replicate 22 0]"
             ?get fresh_bsp "[''tools/toolsblack'']" fresh_bsp]
       t [of 2 192] overlay_record_block [of 2 192] u
  show "\<exists>e self2. lmp_read_overlays ?get fresh_bsp (overlay_record 2 192) = (Inl e, self2)"
    by simp
qed

section \<open>Facts about the static props\<close>


lemma then_read_no_read [simp]: "then_read (no_read x) f buf = f x buf"
  by (simp add: then_read_def no_read_def)


lemma reads_struct:
  "reads (calcsize fs) (\<lambda>vals. \<exists>buf. vals = unpack_items fs buf) (struct_read fs)"
  by (auto simp: reads_def struct_read_def split: if_splits)





lemma reads_if:
  assumes "c \<Longrightarrow> reads n P a" and "\<not> c \<Longrightarrow> reads m P b"
  shows "reads (if c then n else m) P (if c then a else b)"
  using assms by simp

lemma reads_weaken:
  assumes "reads n P r" and "\<And>x. P x \<Longrightarrow> Q x" and "n = m"
  shows "reads m Q r"
  using assms by (auto simp: reads_def)




















lemma then_readE:
  assumes "then_read r f buf = Inr z"
  obtains x mid where "r buf = Inr (x, mid)" and "f x mid = Inr z"
  using assms by (auto simp: then_read_def split: sum.splits)















end
